theory Spec2Isabelle
  imports Main "HOL-Library.Sublist" "HOL-Library.AList"
begin

section \<open>Python strings\<close>

text \<open>
  A Python \<open>str\<close> is modelled by \<^typ>\<open>string\<close>: a \<^typ>\<open>char\<close> stands for one code point
  in the range 0..255 (the Latin-1 block, which Unicode keeps at the same positions).  All
  character classes below are the ones Python uses for \<open>str\<close>, restricted to that range.
\<close>

definition newline :: char where
  "newline = CHR 0x0A"

text \<open>
  \<open>str.isspace\<close>, which is also what \<open>str.strip()\<close> trims and what \<open>\s\<close> matches in a
  \<open>str\<close> pattern: TAB, LF, VT, FF, CR, the separators 0x1C..0x1F, SPACE, NEL (0x85) and
  NBSP (0xA0).
\<close>

definition py_isspace :: "char \<Rightarrow> bool" where
  "py_isspace c = ((of_char c :: nat) \<in> {9, 10, 11, 12, 13, 28, 29, 30, 31, 32, 133, 160})"

text \<open>\<open>[A-Z]\<close> and \<open>\d\<close> (the decimal digits of Latin-1 are the ASCII ones).\<close>

definition is_upper_AZ :: "char \<Rightarrow> bool" where
  "is_upper_AZ c = (65 \<le> (of_char c :: nat) \<and> (of_char c :: nat) \<le> 90)"

definition is_decimal :: "char \<Rightarrow> bool" where
  "is_decimal c = (48 \<le> (of_char c :: nat) \<and> (of_char c :: nat) \<le> 57)"

text \<open>
  \<open>str.lower()\<close>: on Latin-1 it maps A..Z and the capital letters 0xC0..0xDE (all but the
  multiplication sign 0xD7) to the code point 32 above, and nothing else.
\<close>

definition upper_letters :: string where
  "upper_letters =
     ''ABCDEFGHIJKLMNOPQRSTUVWXYZ'' @
     [
      CHR 0xC0, CHR 0xC1, CHR 0xC2, CHR 0xC3, CHR 0xC4, CHR 0xC5, CHR 0xC6, CHR 0xC7,
      CHR 0xC8, CHR 0xC9, CHR 0xCA, CHR 0xCB, CHR 0xCC, CHR 0xCD, CHR 0xCE, CHR 0xCF,
      CHR 0xD0, CHR 0xD1, CHR 0xD2, CHR 0xD3, CHR 0xD4, CHR 0xD5, CHR 0xD6, CHR 0xD8,
      CHR 0xD9, CHR 0xDA, CHR 0xDB, CHR 0xDC, CHR 0xDD, CHR 0xDE]"

definition lower_letters :: string where
  "lower_letters =
     ''abcdefghijklmnopqrstuvwxyz'' @
     [
      CHR 0xE0, CHR 0xE1, CHR 0xE2, CHR 0xE3, CHR 0xE4, CHR 0xE5, CHR 0xE6, CHR 0xE7,
      CHR 0xE8, CHR 0xE9, CHR 0xEA, CHR 0xEB, CHR 0xEC, CHR 0xED, CHR 0xEE, CHR 0xEF,
      CHR 0xF0, CHR 0xF1, CHR 0xF2, CHR 0xF3, CHR 0xF4, CHR 0xF5, CHR 0xF6, CHR 0xF8,
      CHR 0xF9, CHR 0xFA, CHR 0xFB, CHR 0xFC, CHR 0xFD, CHR 0xFE]"

definition lower_char :: "char \<Rightarrow> char" where
  "lower_char c = (case map_of (zip upper_letters lower_letters) c of Some l \<Rightarrow> l | None \<Rightarrow> c)"

definition py_lower :: "string \<Rightarrow> string" where
  "py_lower s = map lower_char s"

text \<open>\<open>s.strip()\<close>: whitespace is dropped at both ends, nothing in between.\<close>

definition py_strip :: "string \<Rightarrow> string" where
  "py_strip s = rev (dropWhile py_isspace (rev (dropWhile py_isspace s)))"

text \<open>\<open>needle in haystack\<close> on two strings: the needle occurs as a contiguous run.\<close>

fun py_in_str :: "string \<Rightarrow> string \<Rightarrow> bool" where
  "py_in_str needle [] = (needle = [])"
| "py_in_str needle (c # cs) = (prefix needle (c # cs) \<or> py_in_str needle cs)"

section \<open>Filename Sanitizer\<close>

text \<open>
  \<^verbatim>\<open>return re.sub(r'[<>:"/\\|?*]', '', name).strip()\<close>

  The character class holds nine characters (the doubled backslash of the raw string is one
  escaped backslash); every match is one character and is replaced by nothing.
\<close>

definition illegal_chars :: "char list" where
  "illegal_chars =
     [CHR ''<'', CHR ''>'', CHR '':'', CHR 0x22, CHR ''/'', CHR 0x5C, CHR ''|'', CHR ''?'', CHR ''*'']"

definition is_illegal :: "char \<Rightarrow> bool" where
  "is_illegal c = (c \<in> set illegal_chars)"

definition sanitize_filename :: "string \<Rightarrow> string" where
  "sanitize_filename name = py_strip (filter (\<lambda>c. \<not> is_illegal c) name)"

section \<open>File names: stem, suffix and the candidate serial code\<close>

text \<open>
  \<open>file_path.stem\<close> and \<open>file_path.suffix\<close> of pathlib, on the final path component:
  \<^verbatim>\<open>
  i = name.rfind('.')
  if 0 < i < len(name) - 1: stem, suffix = name[:i], name[i:]
  else:                     stem, suffix = name, ''
  \<close>
\<close>

definition rfind :: "char \<Rightarrow> string \<Rightarrow> nat option" where
  "rfind c s =
     (if c \<in> set s then Some (length s - Suc (length (takeWhile (\<lambda>x. x \<noteq> c) (rev s)))) else None)"

definition has_suffix :: "string \<Rightarrow> bool" where
  "has_suffix name =
     (case rfind CHR ''.'' name of None \<Rightarrow> False | Some i \<Rightarrow> 0 < i \<and> Suc i < length name)"

definition path_stem :: "string \<Rightarrow> string" where
  "path_stem name =
     (if has_suffix name then take (the (rfind CHR ''.'' name)) name else name)"

definition path_suffix :: "string \<Rightarrow> string" where
  "path_suffix name =
     (if has_suffix name then drop (the (rfind CHR ''.'' name)) name else [])"

text \<open>
  \<^verbatim>\<open>code = re.sub(r"\s*\(.*\)$", "", base_name)\<close>

  \<open>paren_tail r\<close> matches \<open>.*\)$\<close> against everything \<open>r\<close> that follows an opening
  parenthesis: \<open>.\<close> is any character but a newline, and \<open>$\<close> holds at the end of the string
  and also just before a newline that ends the string.  The result is what the match leaves
  of the subject (nothing, or that last newline).
\<close>

definition paren_tail :: "string \<Rightarrow> string option" where
  "paren_tail r =
     (if r \<noteq> [] \<and> last r = CHR '')'' \<and> newline \<notin> set r then Some []
      else if r \<noteq> [] \<and> last r = newline \<and> butlast r \<noteq> [] \<and> last (butlast r) = CHR '')''
              \<and> newline \<notin> set (butlast r) then Some [newline]
      else None)"

text \<open>
  The whole pattern tried at the start of \<open>s\<close>.  \<open>\s*\<close> is greedy, and giving characters
  back cannot help, because the character after a shorter run is whitespace and not \<open>(\<close>.
\<close>

definition paren_match :: "string \<Rightarrow> string option" where
  "paren_match s =
     (case dropWhile py_isspace s of
        [] \<Rightarrow> None
      | c # r \<Rightarrow> if c = CHR ''('' then paren_tail r else None)"

text \<open>
  \<open>re.sub\<close> scans from the left: where the pattern matches, the match is replaced by the
  empty string and the scan goes on behind it; elsewhere the character is copied.  Behind a
  match there is at most one newline, in which the pattern cannot match again (lemma
  \<open>strip_paren_tail\<close>), so the rest is copied as it is.
\<close>

fun strip_paren :: "string \<Rightarrow> string" where
  "strip_paren [] = []"
| "strip_paren (c # cs) =
     (case paren_match (c # cs) of
        Some rest \<Rightarrow> rest
      | None \<Rightarrow> c # strip_paren cs)"

text \<open>
  \<^verbatim>\<open>re.match(r"^[A-Z]{4}-\d{5}$", code)\<close>: four capitals, a hyphen, five digits, and then
  the end of the string or one final newline.
\<close>

definition serial_shape :: "string \<Rightarrow> bool" where
  "serial_shape s =
     (length s = 10 \<and> list_all is_upper_AZ (take 4 s) \<and> s ! 4 = CHR ''-''
      \<and> list_all is_decimal (drop 5 s))"

definition serial_match :: "string \<Rightarrow> bool" where
  "serial_match code =
     (serial_shape code \<or> (code \<noteq> [] \<and> last code = newline \<and> serial_shape (butlast code)))"

definition candidate_code :: "string \<Rightarrow> string" where
  "candidate_code name = strip_paren (path_stem name)"

section \<open>The working directory and the console\<close>

text \<open>
  The Renamer works on one directory.  Its state is a map from entry names to what is stored
  under the name; \<open>is_file()\<close> holds of regular files only.  The content of a file is kept
  as a number, so that a file can be followed through a rename.
\<close>

datatype node = RegularFile nat | NotRegular

type_synonym directory = "string \<rightharpoonup> node"

definition is_file :: "directory \<Rightarrow> string \<Rightarrow> bool" where
  "is_file fs name = (case fs name of Some (RegularFile _) \<Rightarrow> True | _ \<Rightarrow> False)"

text \<open>The lines the program prints, by kind, with the values interpolated into each.\<close>

datatype line =
    Scanning
  | Found nat
  | Renamed string string
  | ErrorRenaming string string
  | NotFound string string

record world =
  files :: directory
  console :: "line list"

datatype error = AttributeError | TypeError | ValueError | FetchError | PrintError

text \<open>
  \<open>file_path.rename(new_path)\<close>.  Whether the operating system refuses a rename (the target
  exists, permission is denied, ...) is not decided by the program: \<open>refuse\<close> gives, for the
  present directory, the source and the target, the message of the \<open>OSError\<close> raised, or
  \<open>None\<close>.  A rename that is not refused moves the node to the new name and replaces what
  was there.
\<close>

type_synonym refusal = "directory \<Rightarrow> string \<Rightarrow> string \<Rightarrow> string option"

definition os_rename :: "refusal \<Rightarrow> directory \<Rightarrow> string \<Rightarrow> string \<Rightarrow> string + directory" where
  "os_rename refuse fs src dst =
     (case refuse fs src dst of
        Some err \<Rightarrow> Inl err
      | None \<Rightarrow>
          (case fs src of
             None \<Rightarrow> Inl ''FileNotFoundError''
           | Some n \<Rightarrow> Inr ((fs(src := None))(dst \<mapsto> n))))"

text \<open>
  \<open>print(...)\<close>.  Whether a line can be written is not decided by the program either: the
  console may be unable to encode the folder, a file name, a title or the arrow of the
  "Renamed" line, or it may be closed.  \<open>out l\<close> gives the message of the exception that
  \<open>print\<close> raises for the line \<open>l\<close> (a \<open>UnicodeEncodeError\<close>, an \<open>OSError\<close>), or \<open>None\<close> when
  the line is written.
\<close>

type_synonym printer = "line \<Rightarrow> string option"

definition py_print :: "printer \<Rightarrow> line \<Rightarrow> world \<Rightarrow> string + world" where
  "py_print out l w =
     (case out l of
        Some msg \<Rightarrow> Inl msg
      | None \<Rightarrow> Inr (w\<lparr>console := console w @ [l]\<rparr>))"

text \<open>
  \<open>file_path.with_name(new_name)\<close> raises \<open>ValueError\<close> for the empty name, for \<open>.\<close> and
  for a name with a path separator.  (On Windows a backslash or a drive colon are refused as
  well; neither can stand in a name of a Windows directory, and the Sanitizer deletes both.)
\<close>

definition with_name :: "string \<Rightarrow> error + string" where
  "with_name new_name =
     (if new_name = [] \<or> new_name = ''.'' \<or> CHR ''/'' \<in> set new_name then Inl ValueError
      else Inr new_name)"

section \<open>Renamer\<close>

text \<open>
  The body of the \<open>try\<close>:
  \<^verbatim>\<open>
  file_path.rename(new_path)
  print(f'Renamed: "{original_name}" ... "{new_name}"')
  \<close>
  \<open>Inl (message, world)\<close> is an exception raised in it, by the rename or by the print after
  a rename that was carried out, with its message and the world it leaves.
\<close>

definition rename_and_report ::
  "refusal \<Rightarrow> printer \<Rightarrow> string \<Rightarrow> string \<Rightarrow> string \<Rightarrow> world \<Rightarrow> (string \<times> world) + world" where
  "rename_and_report refuse out original_name new_path new_name w =
     (case os_rename refuse (files w) original_name new_path of
        Inl err \<Rightarrow> Inl (err, w)
      | Inr fs' \<Rightarrow>
          (case py_print out (Renamed original_name new_name) (w\<lparr>files := fs'\<rparr>) of
             Inl msg \<Rightarrow> Inl (msg, w\<lparr>files := fs'\<rparr>)
           | Inr w' \<Rightarrow> Inr w'))"

text \<open>
  The whole statement:
  \<^verbatim>\<open>
  try: ...
  except Exception as e:
      print(f'Error renaming "{original_name}": {e}')
  \<close>
  Every exception of the body is caught and its message printed.  The print of the handler
  is not guarded: an exception that it raises leaves the loop body.
\<close>

definition try_rename ::
  "refusal \<Rightarrow> printer \<Rightarrow> string \<Rightarrow> string \<Rightarrow> string \<Rightarrow> world \<Rightarrow> (error \<times> world) + world" where
  "try_rename refuse out original_name new_path new_name w =
     (case rename_and_report refuse out original_name new_path new_name w of
        Inr w' \<Rightarrow> Inr w'
      | Inl (e, w1) \<Rightarrow>
          (case py_print out (ErrorRenaming original_name e) w1 of
             Inl msg \<Rightarrow> Inl (PrintError, w1)
           | Inr w' \<Rightarrow> Inr w'))"

text \<open>
  The body of the loop of \<open>rename_ps2_files\<close>, for one directory entry.  The mapping is a
  Python dict, modelled as an association list read with \<^const>\<open>map_of\<close>.  The call of
  \<open>with_name\<close> stands before the \<open>try\<close> and the "not found" print outside it, so their
  exceptions leave the function.  \<open>Inl (e, world)\<close> is an exception that leaves the body,
  with the world it leaves.
\<close>

definition rename_file ::
  "(string \<times> string) list \<Rightarrow> refusal \<Rightarrow> printer \<Rightarrow> string \<Rightarrow> world \<Rightarrow> (error \<times> world) + world" where
  "rename_file mapping refuse out original_name w =
     (if \<not> is_file (files w) original_name then Inr w
      else
        let base_name = path_stem original_name;
            ext = path_suffix original_name;
            code = strip_paren base_name
        in
          if \<not> serial_match code then Inr w
          else
            (case map_of mapping code of
               Some raw_title \<Rightarrow>
                 let clean_title = sanitize_filename raw_title;
                     new_name = clean_title @ ext
                 in
                   (case with_name new_name of
                      Inl e \<Rightarrow> Inl (e, w)
                    | Inr new_path \<Rightarrow> try_rename refuse out original_name new_path new_name w)
             | None \<Rightarrow>
                 (case py_print out (NotFound code original_name) w of
                    Inl msg \<Rightarrow> Inl (PrintError, w)
                  | Inr w' \<Rightarrow> Inr w')))"

text \<open>
  \<open>rename_ps2_files\<close>: the names are what \<open>PS2_FOLDER.iterdir()\<close> yields, a listing taken
  when the loop starts.  An exception that leaves the body ends the loop.
\<close>

fun rename_ps2_files ::
  "(string \<times> string) list \<Rightarrow> refusal \<Rightarrow> printer \<Rightarrow> string list \<Rightarrow> world \<Rightarrow> error option \<times> world" where
  "rename_ps2_files mapping refuse out [] w = (None, w)"
| "rename_ps2_files mapping refuse out (name # names) w =
     (case rename_file mapping refuse out name w of
        Inl (e, w') \<Rightarrow> (Some e, w')
      | Inr w' \<Rightarrow> rename_ps2_files mapping refuse out names w')"

text \<open>The world that the body of the loop leaves, however it ends.\<close>

fun outcome_world :: "(error \<times> world) + world \<Rightarrow> world" where
  "outcome_world (Inl (e, w)) = w"
| "outcome_world (Inr w) = w"

section \<open>JSON values and the Python operations on them\<close>

text \<open>
  What \<open>json.loads\<close> returns.  An object is a Python dict, kept as an association list read
  with \<^const>\<open>map_of\<close>.  \<open>JFloat m e\<close> is the float \<open>m \<sqdot> 2\<^sup>e\<close>; the program only asks of a number
  whether it is zero (the non-numbers that \<open>json.loads\<close> also reads count as non-zero).
\<close>

datatype json =
    JNull
  | JBool bool
  | JInt int
  | JFloat int int
  | JStr string
  | JArr "json list"
  | JObj "(string \<times> json) list"

text \<open>Truth value testing, as \<open>while url\<close>, \<open>x or y\<close> and \<open>if title\<close> apply it.\<close>

fun truthy :: "json \<Rightarrow> bool" where
  "truthy JNull = False"
| "truthy (JBool b) = b"
| "truthy (JInt n) = (n \<noteq> 0)"
| "truthy (JFloat m e) = (m \<noteq> 0)"
| "truthy (JStr s) = (s \<noteq> [])"
| "truthy (JArr xs) = (xs \<noteq> [])"
| "truthy (JObj kvs) = (kvs \<noteq> [])"

definition py_or :: "json \<Rightarrow> json \<Rightarrow> json" where
  "py_or a b = (if truthy a then a else b)"

text \<open>
  \<open>x.get(key)\<close> and \<open>x.get(key, default)\<close>: only a dict has the method; a key that is
  present with the value \<open>null\<close> yields \<open>None\<close> in both.
\<close>

fun py_get_default :: "json \<Rightarrow> string \<Rightarrow> json \<Rightarrow> error + json" where
  "py_get_default (JObj kvs) key d = Inr (case map_of kvs key of Some v \<Rightarrow> v | None \<Rightarrow> d)"
| "py_get_default _ key d = Inl AttributeError"

definition py_get :: "json \<Rightarrow> string \<Rightarrow> error + json" where
  "py_get x key = py_get_default x key JNull"

text \<open>The receiver of \<open>.strip()\<close> or \<open>.lower()\<close>: only a \<open>str\<close> has these methods.\<close>

fun str_receiver :: "json \<Rightarrow> error + string" where
  "str_receiver (JStr s) = Inr s"
| "str_receiver _ = Inl AttributeError"

text \<open>\<open>(x.get(key) or "")\<close>, about to receive a \<open>str\<close> method.\<close>

definition get_text :: "json \<Rightarrow> string \<Rightarrow> error + string" where
  "get_text x key =
     (case py_get x key of
        Inl e \<Rightarrow> Inl e
      | Inr v \<Rightarrow> str_receiver (py_or v (JStr [])))"

text \<open>
  \<open>s in x\<close> for a string \<open>s\<close>: an element of a list, a substring of a string, a key of a
  dict; the other values are not containers.
\<close>

fun py_in :: "string \<Rightarrow> json \<Rightarrow> error + bool" where
  "py_in s (JArr xs) = Inr (JStr s \<in> set xs)"
| "py_in s (JStr t) = Inr (py_in_str s t)"
| "py_in s (JObj kvs) = Inr (s \<in> fst ` set kvs)"
| "py_in s _ = Inl TypeError"

text \<open>\<open>for item in x\<close>: the elements of a list, the characters of a string, the keys of a dict.\<close>

fun py_iter :: "json \<Rightarrow> error + json list" where
  "py_iter (JArr xs) = Inr xs"
| "py_iter (JStr s) = Inr (map (\<lambda>c. JStr [c]) s)"
| "py_iter (JObj kvs) = Inr (map (\<lambda>kv. JStr (fst kv)) kvs)"
| "py_iter _ = Inl TypeError"

text \<open>The text of a value that is a string, and the elements of one that is a list.\<close>

fun text_of :: "json \<Rightarrow> string" where
  "text_of (JStr s) = s"
| "text_of _ = []"

fun elements :: "json \<Rightarrow> json list" where
  "elements (JArr xs) = xs"
| "elements _ = []"

section \<open>Title Selector\<close>

text \<open>
  The loop of \<open>pick_title\<close> over the translations:
  \<^verbatim>\<open>
  for trans in (name_info.get("translations") or []):
      lang = (trans.get("language") or "").lower()
      title_val = (trans.get("value") or "").strip()
      if title_val and "english" in lang:
          return title_val
  return default_title
  \<close>
\<close>

fun scan_translations :: "json list \<Rightarrow> string \<Rightarrow> error + string" where
  "scan_translations [] default_title = Inr default_title"
| "scan_translations (translation # rest) default_title =
     (case get_text translation ''language'' of
        Inl e \<Rightarrow> Inl e
      | Inr l \<Rightarrow>
          (case get_text translation ''value'' of
             Inl e \<Rightarrow> Inl e
           | Inr v \<Rightarrow>
               let lang = py_lower l; title_val = py_strip v
               in if title_val \<noteq> [] \<and> py_in_str ''english'' lang then Inr title_val
                  else scan_translations rest default_title))"

definition pick_title :: "json \<Rightarrow> error + string" where
  "pick_title entry =
     (case py_get entry ''name'' of
        Inl e \<Rightarrow> Inl e
      | Inr nm \<Rightarrow>
          let name_info = py_or nm (JObj []) in
          (case get_text name_info ''default_value'' of
             Inl e \<Rightarrow> Inl e
           | Inr dv \<Rightarrow>
               let default_title = py_strip dv in
               (case py_get name_info ''translations'' of
                  Inl e \<Rightarrow> Inl e
                | Inr tr \<Rightarrow>
                    (case py_iter (py_or tr (JArr [])) of
                       Inl e \<Rightarrow> Inl e
                     | Inr translations \<Rightarrow> scan_translations translations default_title))))"

section \<open>Mapping Builder\<close>

definition START_URL :: string where
  "START_URL =
     ''https://api.serialstation.com/titles/'' @
     ''?title_id_type=&title_id_number=&systems=b88ad131-ac80-458e-81a1-33ec9e75ea8a''"

text \<open>
  The two variables the loops of \<open>build_ps2_title_mapping\<close> update, \<open>mapping\<close> and
  \<open>seen_ids\<close>, as a pair.
\<close>

type_synonym table = "(string \<times> string) list \<times> string set"

definition empty_table :: table where
  "empty_table = ([], {})"

text \<open>
  The tests of the loop body that do not read the table: the platform, the content type
  and the two serial components.  \<open>Inr None\<close> is \<open>continue\<close>; otherwise the result is the
  serial code \<open>f"{t_type}-{t_num}"\<close>.
\<close>

definition entry_serial :: "json \<Rightarrow> error + string option" where
  "entry_serial entry =
     (case py_get entry ''systems'' of
        Inl e \<Rightarrow> Inl e
      | Inr sys \<Rightarrow>
          (case py_in ''PlayStation 2'' (py_or sys (JArr [])) of
             Inl e \<Rightarrow> Inl e
           | Inr has_ps2 \<Rightarrow>
               if \<not> has_ps2 then Inr None
               else
                 (case get_text entry ''content_type'' of
                    Inl e \<Rightarrow> Inl e
                  | Inr ct \<Rightarrow>
                      if py_lower ct \<noteq> ''game'' then Inr None
                      else
                        (case get_text entry ''title_id_type'' of
                           Inl e \<Rightarrow> Inl e
                         | Inr tt \<Rightarrow>
                             (case get_text entry ''title_id_number'' of
                                Inl e \<Rightarrow> Inl e
                              | Inr tn \<Rightarrow>
                                  let t_type = py_strip tt; t_num = py_strip tn
                                  in if \<not> (t_type \<noteq> [] \<and> t_num \<noteq> []) then Inr None
                                     else Inr (Some (t_type @ ''-'' @ t_num)))))))"

text \<open>
  The rest of the body: the duplicate test, the title, and the two updates.
  \<open>mapping[serial] = title\<close> replaces the value of a key that is present and appends a new
  key otherwise, which is \<^const>\<open>AList.update\<close>.
\<close>

fun process_entry :: "json \<Rightarrow> table \<Rightarrow> error + table" where
  "process_entry entry (mapping, seen_ids) =
     (case entry_serial entry of
        Inl e \<Rightarrow> Inl e
      | Inr None \<Rightarrow> Inr (mapping, seen_ids)
      | Inr (Some serial) \<Rightarrow>
          if serial \<in> seen_ids then Inr (mapping, seen_ids)
          else
            (case pick_title entry of
               Inl e \<Rightarrow> Inl e
             | Inr title \<Rightarrow>
                 if title \<noteq> []
                 then Inr (AList.update serial title mapping, insert serial seen_ids)
                 else Inr (mapping, seen_ids)))"

fun process_entries :: "json list \<Rightarrow> table \<Rightarrow> error + table" where
  "process_entries [] t = Inr t"
| "process_entries (entry # rest) t =
     (case process_entry entry t of
        Inl e \<Rightarrow> Inl e
      | Inr t' \<Rightarrow> process_entries rest t')"

text \<open>\<open>for entry in data.get("results", [])\<close>: what the loop iterates over, and the loop.\<close>

definition page_entries :: "json \<Rightarrow> error + json list" where
  "page_entries data =
     (case py_get_default data ''results'' (JArr []) of
        Inl e \<Rightarrow> Inl e
      | Inr rs \<Rightarrow> py_iter rs)"

definition process_page :: "json \<Rightarrow> table \<Rightarrow> error + table" where
  "process_page data t =
     (case page_entries data of
        Inl e \<Rightarrow> Inl e
      | Inr entries \<Rightarrow> process_entries entries t)"

text \<open>
  The catalog is outside the program: \<open>srv k u\<close> is the JSON document that the request
  number \<open>k\<close> of the run (counted from 0) obtains for the URL \<open>u\<close>, or \<open>None\<close> when
  \<open>fetch_json\<close> raises there (no connection, an HTTP error status, a body that is not
  UTF-8 or not JSON).  A value that is not a string is no URL that \<open>urlopen\<close> can open.
\<close>

type_synonym server = "nat \<Rightarrow> string \<Rightarrow> json option"

fun fetch_json :: "server \<Rightarrow> nat \<Rightarrow> json \<Rightarrow> error + json" where
  "fetch_json srv k (JStr u) = (case srv k u of Some data \<Rightarrow> Inr data | None \<Rightarrow> Inl FetchError)"
| "fetch_json srv k _ = Inl FetchError"

text \<open>
  \<open>while url: ...\<close>.  The loop need not end (the catalog may link its pages in a circle),
  so the result is an option and \<open>None\<close> stands for a run that never returns.  Besides the
  table the loop carries the URLs requested so far.
\<close>

partial_function (option) fetch_loop ::
  "server \<Rightarrow> json \<Rightarrow> string list \<Rightarrow> table \<Rightarrow> (error + string list \<times> table) option" where
  "fetch_loop srv url requested t =
     (if \<not> truthy url then Some (Inr (requested, t))
      else
        (case fetch_json srv (length requested) url of
           Inl e \<Rightarrow> Some (Inl e)
         | Inr data \<Rightarrow>
             (case process_page data t of
                Inl e \<Rightarrow> Some (Inl e)
              | Inr t' \<Rightarrow>
                  (case py_get data ''next'' of
                     Inl e \<Rightarrow> Some (Inl e)
                   | Inr next_url \<Rightarrow> fetch_loop srv next_url (requested @ [text_of url]) t'))))"

declare fetch_loop.simps [code]

definition build_ps2_title_mapping :: "server \<Rightarrow> (error + (string \<times> string) list) option" where
  "build_ps2_title_mapping srv =
     (case fetch_loop srv (JStr START_URL) [] empty_table of
        None \<Rightarrow> None
      | Some (Inl e) \<Rightarrow> Some (Inl e)
      | Some (Inr (requested, mapping, seen_ids)) \<Rightarrow> Some (Inr mapping))"

section \<open>The whole program\<close>

text \<open>
  \<open>main\<close>: the mapping is built first and handed to the Renamer.  The two prints of
  \<open>build_ps2_title_mapping\<close>, one before its loop and one after it, are made here, around
  the computation of the table; neither is guarded, so an exception of either ends the
  program.  The result is the exception that ended the program, if any, and the world it
  leaves; \<open>None\<close> is a run that never returns.
\<close>

definition main ::
  "server \<Rightarrow> refusal \<Rightarrow> printer \<Rightarrow> string list \<Rightarrow> world \<Rightarrow> (error option \<times> world) option" where
  "main srv refuse out names w =
     (case py_print out Scanning w of
        Inl msg \<Rightarrow> Some (Some PrintError, w)
      | Inr w1 \<Rightarrow>
          (case build_ps2_title_mapping srv of
             None \<Rightarrow> None
           | Some (Inl e) \<Rightarrow> Some (Some e, w1)
           | Some (Inr m) \<Rightarrow>
               (case py_print out (Found (length m)) w1 of
                  Inl msg \<Rightarrow> Some (Some PrintError, w1)
                | Inr w2 \<Rightarrow> Some (rename_ps2_files m refuse out names w2))))"

section \<open>The JSON shape of the catalog\<close>

text \<open>
  The shape the specification gives for a response:
  \<^verbatim>\<open>{ "results": [ { "systems": [...], "content_type": str, "title_id_type": str,
       "title_id_number": str, "name": { "default_value": str,
       "translations": [ { "language": str, "value": str }, ... ] } }, ... ],
    "next": str|null }\<close>
  Below, every field of an entry, of a name and of a translation may also be \<open>null\<close> or
  absent; \<open>field\<close> reads an absent key as \<open>null\<close>.
\<close>

fun field :: "json \<Rightarrow> string \<Rightarrow> json" where
  "field (JObj kvs) key = (case map_of kvs key of Some v \<Rightarrow> v | None \<Rightarrow> JNull)"
| "field _ key = JNull"

fun is_object :: "json \<Rightarrow> bool" where
  "is_object (JObj kvs) = True"
| "is_object _ = False"

fun text_or_null :: "json \<Rightarrow> bool" where
  "text_or_null JNull = True"
| "text_or_null (JStr s) = True"
| "text_or_null _ = False"

fun list_or_null :: "json \<Rightarrow> bool" where
  "list_or_null JNull = True"
| "list_or_null (JArr xs) = True"
| "list_or_null _ = False"

definition wf_translation :: "json \<Rightarrow> bool" where
  "wf_translation t =
     (is_object t \<and> text_or_null (field t ''language'') \<and> text_or_null (field t ''value''))"

definition wf_name :: "json \<Rightarrow> bool" where
  "wf_name n =
     (n = JNull \<or>
      (is_object n \<and> text_or_null (field n ''default_value'')
       \<and> list_or_null (field n ''translations'')
       \<and> list_all wf_translation (elements (field n ''translations''))))"

definition wf_entry :: "json \<Rightarrow> bool" where
  "wf_entry entry =
     (is_object entry \<and> list_or_null (field entry ''systems'')
      \<and> text_or_null (field entry ''content_type'')
      \<and> text_or_null (field entry ''title_id_type'')
      \<and> text_or_null (field entry ''title_id_number'')
      \<and> wf_name (field entry ''name''))"

text \<open>A page: an object whose \<open>results\<close> are a list of entries, or are left out.\<close>

fun wf_page :: "json \<Rightarrow> bool" where
  "wf_page (JObj kvs) =
     (case map_of kvs ''results'' of
        None \<Rightarrow> True
      | Some (JArr entries) \<Rightarrow> list_all wf_entry entries
      | Some _ \<Rightarrow> False)"
| "wf_page _ = False"

text \<open>The default title and the translations (language tag, value) of a name structure.\<close>

definition name_default :: "json \<Rightarrow> string" where
  "name_default n = text_of (field n ''default_value'')"

definition name_translations :: "json \<Rightarrow> (string \<times> string) list" where
  "name_translations n =
     map (\<lambda>t. (text_of (field t ''language''), text_of (field t ''value'')))
       (elements (field n ''translations''))"

text \<open>
  The Title Selector in the words of the specification: the first translation, in sequence
  order, whose language tag contains \<open>english\<close> whatever the case of its letters and whose
  value is not empty after trimming gives its trimmed value; without such a translation the
  result is the trimmed default title.
\<close>

definition qualifies :: "string \<times> string \<Rightarrow> bool" where
  "qualifies tr = (py_in_str ''english'' (py_lower (fst tr)) \<and> py_strip (snd tr) \<noteq> [])"

definition title_selector :: "string \<Rightarrow> (string \<times> string) list \<Rightarrow> string" where
  "title_selector default_title translations =
     (case find qualifies translations of
        Some tr \<Rightarrow> py_strip (snd tr)
      | None \<Rightarrow> py_strip default_title)"

section \<open>A run of the Mapping Builder over given pages\<close>

definition next_url :: "json \<Rightarrow> json" where
  "next_url data = field data ''next''"

text \<open>
  \<open>serves srv k url pages\<close>: from request number \<open>k\<close> and the URL \<open>url\<close> on, the loop of
  the Mapping Builder obtains exactly these pages, each requested at the \<open>next\<close> of the
  page before, and the \<open>next\<close> of the last one ends the loop.
\<close>

fun serves :: "server \<Rightarrow> nat \<Rightarrow> json \<Rightarrow> json list \<Rightarrow> bool" where
  "serves srv k url [] = (\<not> truthy url)"
| "serves srv k url (data # pages) =
     (truthy url \<and> fetch_json srv k url = Inr data \<and> serves srv (Suc k) (next_url data) pages)"

text \<open>
  The same in the words of the specification, from a URL that is a non-empty string: every
  page but the last has a \<open>next\<close> that is a non-empty string, at which the following page
  is requested; the \<open>next\<close> of the last page is absent, \<open>null\<close> or the empty string.
\<close>

fun linked :: "server \<Rightarrow> nat \<Rightarrow> string \<Rightarrow> json list \<Rightarrow> bool" where
  "linked srv k u [] = False"
| "linked srv k u [data] =
     (u \<noteq> [] \<and> srv k u = Some data \<and> (next_url data = JNull \<or> next_url data = JStr []))"
| "linked srv k u (data # following # pages) =
     (u \<noteq> [] \<and> srv k u = Some data \<and> text_or_null (next_url data)
      \<and> linked srv (Suc k) (text_of (next_url data)) (following # pages))"

text \<open>The URLs requested for the pages, the first one at \<open>url\<close>.\<close>

fun request_urls :: "json \<Rightarrow> json list \<Rightarrow> string list" where
  "request_urls url [] = []"
| "request_urls url (data # pages) = text_of url # request_urls (next_url data) pages"

text \<open>The table after the pages, and all entries of the pages in page-then-entry order.\<close>

fun process_pages :: "json list \<Rightarrow> table \<Rightarrow> error + table" where
  "process_pages [] t = Inr t"
| "process_pages (data # pages) t =
     (case process_page data t of
        Inl e \<Rightarrow> Inl e
      | Inr t' \<Rightarrow> process_pages pages t')"

definition all_entries :: "json list \<Rightarrow> json list" where
  "all_entries pages =
     concat (map (\<lambda>data. case page_entries data of Inr entries \<Rightarrow> entries | Inl e \<Rightarrow> []) pages)"

text \<open>
  An entry passes the filters of the Mapping Builder under a serial code: platform, content
  type and serial components are accepted, and the selected title is not empty.
\<close>

definition accepted :: "json \<Rightarrow> string \<Rightarrow> string \<Rightarrow> bool" where
  "accepted entry serial title =
     (entry_serial entry = Inr (Some serial) \<and> pick_title entry = Inr title \<and> title \<noteq> [])"

text \<open>
  The form of the keys that the Mapping Builder stores: two non-empty parts without
  whitespace at their ends, joined by a hyphen.
\<close>

definition trimmed :: "string \<Rightarrow> bool" where
  "trimmed s = (s \<noteq> [] \<and> \<not> py_isspace (hd s) \<and> \<not> py_isspace (last s))"

definition key_form :: "string \<Rightarrow> bool" where
  "key_form serial = (\<exists>t_type t_num. serial = t_type @ ''-'' @ t_num \<and> trimmed t_type \<and> trimmed t_num)"

definition well_keyed :: "(string \<times> string) list \<Rightarrow> bool" where
  "well_keyed m = (\<forall>(serial, title)\<in>set m. key_form serial \<and> title \<noteq> [])"

text \<open>
  \<open>fails_after srv k url t pages\<close>: from request number \<open>k\<close>, the URL \<open>url\<close> and the table
  \<open>t\<close> on, the loop obtains and processes these pages, and the request that follows them
  fails.
\<close>

fun fails_after :: "server \<Rightarrow> nat \<Rightarrow> json \<Rightarrow> table \<Rightarrow> json list \<Rightarrow> bool" where
  "fails_after srv k url t [] = (truthy url \<and> fetch_json srv k url = Inl FetchError)"
| "fails_after srv k url t (data # pages) =
     (truthy url \<and> fetch_json srv k url = Inr data \<and>
      (case process_page data t of
         Inl e \<Rightarrow> False
       | Inr t' \<Rightarrow> fails_after srv (Suc k) (next_url data) t' pages))"

section \<open>Reading the console\<close>

text \<open>The new names of the renames a console reports, and three kinds of lines.\<close>

fun rename_target :: "line \<Rightarrow> string list" where
  "rename_target (Renamed old new) = [new]"
| "rename_target _ = []"

definition rename_targets :: "line list \<Rightarrow> string list" where
  "rename_targets ls = concat (map rename_target ls)"

fun is_error_line :: "line \<Rightarrow> bool" where
  "is_error_line (ErrorRenaming name err) = True"
| "is_error_line _ = False"

fun is_not_found :: "line \<Rightarrow> bool" where
  "is_not_found (NotFound code name) = True"
| "is_not_found _ = False"

text \<open>
  A reported rename whose new name would be taken up by the Renamer again: the candidate
  code of the new name matches the pattern and is a key of the mapping.
\<close>

fun retriggers :: "(string \<times> string) list \<Rightarrow> line \<Rightarrow> bool" where
  "retriggers mapping (Renamed old new) =
     (serial_match (candidate_code new) \<and> map_of mapping (candidate_code new) \<noteq> None)"
| "retriggers mapping _ = False"

definition settled :: "(string \<times> string) list \<Rightarrow> line list \<Rightarrow> bool" where
  "settled mapping ls = list_all (\<lambda>l. \<not> is_error_line l \<and> \<not> retriggers mapping l) ls"

section \<open>Example inputs\<close>

text \<open>An operating system that refuses no rename, and one that refuses every rename.\<close>

definition accept_all :: refusal where
  "accept_all fs src dst = None"

definition refuse_all :: refusal where
  "refuse_all fs src dst = Some ''PermissionError''"

text \<open>
  A console that writes every line, and a console whose encoding is ASCII: it can write
  neither the arrow of the "Renamed" line nor a name or message with another character.
\<close>

definition prints_all :: printer where
  "prints_all l = None"

definition is_ascii :: "string \<Rightarrow> bool" where
  "is_ascii s = list_all (\<lambda>c. (of_char c :: nat) < 128) s"

fun ascii_console :: printer where
  "ascii_console (Renamed old new) = Some ''UnicodeEncodeError''"
| "ascii_console (ErrorRenaming name err) =
     (if is_ascii name \<and> is_ascii err then None else Some ''UnicodeEncodeError'')"
| "ascii_console (NotFound code name) =
     (if is_ascii code \<and> is_ascii name then None else Some ''UnicodeEncodeError'')"
| "ascii_console l = None"

text \<open>A directory with a file whose name has a letter outside ASCII (e with acute accent).\<close>

definition accented_name :: string where
  "accented_name = ''SCUS-12345 (Pok'' @ [CHR 0xE9] @ ''mon).iso''"

definition accented_dir :: world where
  "accented_dir =
     \<lparr>files = [accented_name \<mapsto> RegularFile 1, ''SLUS-20001.bin'' \<mapsto> RegularFile 2],
      console = []\<rparr>"

definition example_dir :: world where
  "example_dir =
     \<lparr>files = [''SCUS-12345 (USA).iso'' \<mapsto> RegularFile 1, ''notes.txt'' \<mapsto> RegularFile 2,
               ''SCUS-12345'' \<mapsto> RegularFile 3, ''SLUS-20001.bin'' \<mapsto> RegularFile 4],
      console = []\<rparr>"

definition unusable_title :: "string \<Rightarrow> bool" where
  "unusable_title title = list_all (\<lambda>c. is_illegal c \<or> py_isspace c) title"

definition example_mapping :: "(string \<times> string) list" where
  "example_mapping = [(''SCUS-12345'', ''Example Game''), (''SLUS-20001'', '':?'')]"

definition example_listing :: "string list" where
  "example_listing = [''SCUS-12345 (USA).iso'', ''notes.txt'', ''SCUS-12345'', ''SLUS-20001.bin'']"

definition example_first_run :: "error option \<times> world" where
  "example_first_run =
     rename_ps2_files [(''SCUS-12345'', ''Example Game'')] accept_all prints_all example_listing
       example_dir"

text \<open>A mapping in which a title has the form of a serial code that is itself a key.\<close>

definition chain_mapping :: "(string \<times> string) list" where
  "chain_mapping = [(''SCUS-12345'', ''SLUS-54321''), (''SLUS-54321'', ''Final'')]"

definition chain_dir :: world where
  "chain_dir = \<lparr>files = [''SCUS-12345.iso'' \<mapsto> RegularFile 1], console = []\<rparr>"

definition chain_first_run :: "error option \<times> world" where
  "chain_first_run =
     rename_ps2_files chain_mapping accept_all prints_all [''SCUS-12345.iso''] chain_dir"

definition chain_second_run :: "error option \<times> world" where
  "chain_second_run =
     rename_ps2_files chain_mapping accept_all prints_all [''SLUS-54321.iso'']
       (snd chain_first_run)"

text \<open>JSON for a translation, a name structure and a catalog entry of a PlayStation 2 game.\<close>

definition translation_json :: "string \<Rightarrow> string \<Rightarrow> json" where
  "translation_json lang v = JObj [(''language'', JStr lang), (''value'', JStr v)]"

definition name_json :: "string \<Rightarrow> json list \<Rightarrow> json" where
  "name_json d ts = JObj [(''default_value'', JStr d), (''translations'', JArr ts)]"

definition game_json :: "string \<Rightarrow> string \<Rightarrow> json \<Rightarrow> json" where
  "game_json t_type t_num n =
     JObj [(''systems'', JArr [JStr ''PlayStation 2'']), (''content_type'', JStr ''Game''),
           (''title_id_type'', JStr t_type), (''title_id_number'', JStr t_num), (''name'', n)]"

definition page_json :: "json list \<Rightarrow> json \<Rightarrow> json" where
  "page_json entries nxt = JObj [(''results'', JArr entries), (''next'', nxt)]"

text \<open>
  A catalog of one page with a game whose serial number has three digits, and a catalog of
  two pages that list the same serial code under two titles.
\<close>

definition short_serial_server :: server where
  "short_serial_server k u =
     (if k = 0 \<and> u = START_URL
      then Some (page_json [game_json ''SLUS'' ''200'' (name_json ''Demo'' [])] JNull)
      else None)"

definition first_page :: json where
  "first_page =
     page_json
       [game_json ''SCUS'' ''12345'' (name_json [] []),
        game_json ''SCUS'' ''12345'' (name_json ''First Title'' []),
        game_json ''SLUS'' ''20001'' (name_json ''Other'' [])]
       (JStr ''page2'')"

definition second_page :: json where
  "second_page =
     page_json [game_json ''SCUS'' ''12345'' (name_json ''Second Title'' [])] JNull"

definition two_page_server :: server where
  "two_page_server k u =
     (if k = 0 \<and> u = START_URL then Some first_page
      else if k = 1 \<and> u = ''page2'' then Some second_page
      else None)"

text \<open>A catalog whose first page is delivered and whose second request fails.\<close>

definition failing_server :: server where
  "failing_server k u = (if k = 0 \<and> u = START_URL then Some first_page else None)"

section \<open>Facts about strings\<close>

lemma py_strip_decompose:
  "\<exists>pre suf. s = pre @ py_strip s @ suf \<and> list_all py_isspace pre \<and> list_all py_isspace suf"
proof -
  let ?a = "takeWhile py_isspace s"
  let ?m = "dropWhile py_isspace s"
  let ?b = "rev (takeWhile py_isspace (rev ?m))"
  have m: "?m = py_strip s @ ?b"
  proof -
    have "rev (takeWhile py_isspace (rev ?m) @ dropWhile py_isspace (rev ?m)) = ?m"
      by (simp only: takeWhile_dropWhile_id rev_rev_ident)
    then show ?thesis
      by (simp only: rev_append py_strip_def)
  qed
  have "s = ?a @ ?m"
    by simp
  with m have "s = ?a @ py_strip s @ ?b"
    by simp
  moreover have "list_all py_isspace ?a"
    by (simp add: list_all_iff) (metis set_takeWhileD)
  moreover have "list_all py_isspace ?b"
    by (simp add: list_all_iff) (metis set_takeWhileD)
  ultimately show ?thesis
    by blast
qed

lemma last_dropWhile_keep:
  "xs \<noteq> [] \<Longrightarrow> \<not> P (last xs) \<Longrightarrow> last (dropWhile P xs) = last xs"
  by (induction xs) (auto split: if_splits)

lemma py_strip_ends:
  assumes "py_strip s \<noteq> []"
  shows "\<not> py_isspace (hd (py_strip s))" and "\<not> py_isspace (last (py_strip s))"
proof -
  let ?m = "dropWhile py_isspace s"
  let ?r = "dropWhile py_isspace (rev ?m)"
  from assms have r: "?r \<noteq> []"
    by (simp add: py_strip_def)
  then have "\<not> py_isspace (hd ?r)"
    by (rule hd_dropWhile)
  with r show "\<not> py_isspace (last (py_strip s))"
    by (simp add: py_strip_def last_rev)
  from r have m: "?m \<noteq> []"
    by (metis dropWhile.simps(1) rev_is_Nil_conv)
  then have hm: "\<not> py_isspace (hd ?m)"
    by (rule hd_dropWhile)
  from m have "rev ?m \<noteq> []" and "\<not> py_isspace (last (rev ?m))"
    using hm by (simp_all add: last_rev)
  then have "last ?r = last (rev ?m)"
    by (rule last_dropWhile_keep)
  with m r show "\<not> py_isspace (hd (py_strip s))"
    using hm by (simp add: py_strip_def hd_rev last_rev)
qed

text \<open>
  C4.  For every input the Sanitizer's result holds none of the nine characters; it is the
  input with those characters deleted, minus a run of whitespace at the front and one at the
  back (so nothing else is removed, interior whitespace stays and nothing is truncated); its
  first and last characters are not whitespace; and
  \<open>sanitize_filename "My: Game? / Title*" = "My Game  Title"\<close>, with both interior spaces.
\<close>

theorem sanitize_filename_removes_and_trims:
  "list_all (\<lambda>c. c \<notin> set illegal_chars) (sanitize_filename name)
   \<and> length illegal_chars = 9 \<and> distinct illegal_chars
   \<and> (\<exists>pre suf. filter (\<lambda>c. c \<notin> set illegal_chars) name = pre @ sanitize_filename name @ suf
        \<and> list_all py_isspace pre \<and> list_all py_isspace suf)
   \<and> (sanitize_filename name = [] \<or>
        (\<not> py_isspace (hd (sanitize_filename name)) \<and> \<not> py_isspace (last (sanitize_filename name))))
   \<and> sanitize_filename ''My: Game? / Title*'' = ''My Game  Title''"
proof -
  let ?f = "filter (\<lambda>c. c \<notin> set illegal_chars) name"
  have san: "sanitize_filename name = py_strip ?f"
    by (simp add: sanitize_filename_def is_illegal_def)
  obtain pre suf where dec: "?f = pre @ py_strip ?f @ suf"
      and ws: "list_all py_isspace pre" "list_all py_isspace suf"
    using py_strip_decompose [of ?f] by blast
  have "set (py_strip ?f) \<subseteq> set ?f"
    using dec by (metis Un_upper1 Un_upper2 set_append subset_trans)
  then have c1: "list_all (\<lambda>c. c \<notin> set illegal_chars) (sanitize_filename name)"
    unfolding san list_all_iff by auto
  have c2: "length illegal_chars = 9 \<and> distinct illegal_chars"
    by (simp add: illegal_chars_def)
  have c3: "\<exists>pre suf. ?f = pre @ sanitize_filename name @ suf
        \<and> list_all py_isspace pre \<and> list_all py_isspace suf"
    unfolding san using dec ws by blast
  have c4: "sanitize_filename name = [] \<or>
      (\<not> py_isspace (hd (sanitize_filename name)) \<and> \<not> py_isspace (last (sanitize_filename name)))"
    unfolding san using py_strip_ends [of ?f] by blast
  have c5: "sanitize_filename ''My: Game? / Title*'' = ''My Game  Title''"
    by (simp add: sanitize_filename_def is_illegal_def illegal_chars_def py_strip_def py_isspace_def)
  from c1 c2 c3 c4 c5 show ?thesis
    by blast
qed

section \<open>Facts about the candidate code\<close>

lemma paren_match_no_paren:
  "paren_match s = None" if "CHR ''('' \<notin> set s"
proof (cases "dropWhile py_isspace s")
  case Nil
  show ?thesis
    unfolding paren_match_def Nil by simp
next
  case (Cons c r)
  then have "c \<in> set s"
    by (metis list.set_intros(1) set_dropWhileD)
  with that have "c \<noteq> CHR ''(''"
    by auto
  then show ?thesis
    unfolding paren_match_def Cons by simp
qed





lemma strip_paren_tail: "paren_match s = Some rest \<Longrightarrow> strip_paren rest = rest"
  by (auto simp: paren_match_def paren_tail_def paren_match_no_paren newline_def
      split: list.splits if_splits)



lemma rename_file_skip:
  assumes "\<not> (is_file (files w) x \<and> serial_match (candidate_code x))"
  shows "rename_file mapping refuse out x w = Inr w"
  using assms by (cases "is_file (files w) x") (simp_all add: rename_file_def candidate_code_def)

lemma rename_file_missing:
  assumes "is_file (files w) x" and "serial_match (candidate_code x)"
    and "map_of mapping (candidate_code x) = None"
  shows "rename_file mapping refuse out x w =
    (case py_print out (NotFound (candidate_code x) x) w of
       Inl msg \<Rightarrow> Inl (PrintError, w)
     | Inr w' \<Rightarrow> Inr w')"
  using assms by (simp add: rename_file_def candidate_code_def)

lemma rename_file_found:
  assumes "is_file (files w) x" and "serial_match (candidate_code x)"
    and "map_of mapping (candidate_code x) = Some title"
  shows "rename_file mapping refuse out x w =
    (case with_name (sanitize_filename title @ path_suffix x) of
       Inl e \<Rightarrow> Inl (e, w)
     | Inr new_path \<Rightarrow>
         try_rename refuse out x new_path (sanitize_filename title @ path_suffix x) w)"
  using assms by (simp add: rename_file_def candidate_code_def Let_def)

lemma try_rename_cases:
  obtains (refused) err where "os_rename refuse (files w) x p = Inl err"
      "out (ErrorRenaming x err) = None"
      "try_rename refuse out x p n w = Inr (w\<lparr>console := console w @ [ErrorRenaming x err]\<rparr>)"
  | (refused_unprinted) err where "os_rename refuse (files w) x p = Inl err"
      "out (ErrorRenaming x err) \<noteq> None"
      "try_rename refuse out x p n w = Inl (PrintError, w)"
  | (renamed) fs' where "os_rename refuse (files w) x p = Inr fs'"
      "out (Renamed x n) = None"
      "try_rename refuse out x p n w = Inr (w\<lparr>files := fs', console := console w @ [Renamed x n]\<rparr>)"
  | (unreported) fs' msg where "os_rename refuse (files w) x p = Inr fs'"
      "out (Renamed x n) = Some msg" "out (ErrorRenaming x msg) = None"
      "try_rename refuse out x p n w =
         Inr (w\<lparr>files := fs', console := console w @ [ErrorRenaming x msg]\<rparr>)"
  | (unprinted) fs' msg where "os_rename refuse (files w) x p = Inr fs'"
      "out (Renamed x n) = Some msg" "out (ErrorRenaming x msg) \<noteq> None"
      "try_rename refuse out x p n w = Inl (PrintError, w\<lparr>files := fs'\<rparr>)"
proof (cases "os_rename refuse (files w) x p")
  case (Inl err)
  show ?thesis
  proof (cases "out (ErrorRenaming x err)")
    case None
    with Inl have "try_rename refuse out x p n w =
        Inr (w\<lparr>console := console w @ [ErrorRenaming x err]\<rparr>)"
      by (simp add: try_rename_def rename_and_report_def py_print_def)
    with Inl None show ?thesis
      by (rule refused)
  next
    case (Some msg)
    with Inl have "try_rename refuse out x p n w = Inl (PrintError, w)"
      by (simp add: try_rename_def rename_and_report_def py_print_def)
    with Inl Some show ?thesis
      by (intro refused_unprinted [of err]) simp_all
  qed
next
  case (Inr fs')
  show ?thesis
  proof (cases "out (Renamed x n)")
    case None
    with Inr have "try_rename refuse out x p n w =
        Inr (w\<lparr>files := fs', console := console w @ [Renamed x n]\<rparr>)"
      by (simp add: try_rename_def rename_and_report_def py_print_def)
    with Inr None show ?thesis
      by (rule renamed)
  next
    case (Some msg)
    show ?thesis
    proof (cases "out (ErrorRenaming x msg)")
      case None
      with Inr Some have "try_rename refuse out x p n w =
          Inr (w\<lparr>files := fs', console := console w @ [ErrorRenaming x msg]\<rparr>)"
        by (simp add: try_rename_def rename_and_report_def py_print_def)
      with Inr Some None show ?thesis
        by (rule unreported)
    next
      case again: (Some msg')
      with Inr Some have "try_rename refuse out x p n w = Inl (PrintError, w\<lparr>files := fs'\<rparr>)"
        by (simp add: try_rename_def rename_and_report_def py_print_def)
      with Inr Some again show ?thesis
        by (intro unprinted [of fs' msg]) simp_all
    qed
  qed
qed




lemmas eval_defs =
  candidate_code_def path_stem_def path_suffix_def has_suffix_def rfind_def
  paren_match_def paren_tail_def py_isspace_def newline_def
  serial_match_def serial_shape_def is_upper_AZ_def is_decimal_def
  sanitize_filename_def is_illegal_def illegal_chars_def py_strip_def with_name_def
  rename_file_def try_rename_def rename_and_report_def py_print_def is_file_def os_rename_def
  accept_all_def refuse_all_def prints_all_def example_dir_def Let_def



section \<open>Facts about the Renamer\<close>

lemma rename_ps2_files_append:
  "rename_ps2_files mapping refuse out (xs @ ys) w =
     (case rename_ps2_files mapping refuse out xs w of
        (None, w') \<Rightarrow> rename_ps2_files mapping refuse out ys w'
      | (Some e, w') \<Rightarrow> (Some e, w'))"
  by (induction xs arbitrary: w) (auto split: sum.splits)

lemma rename_file_error_kind:
  assumes "rename_file mapping refuse out name w = Inl (e, w')"
  shows "e = ValueError \<or> e = PrintError"
proof (cases "is_file (files w) name \<and> serial_match (candidate_code name)")
  case False
  with assms show ?thesis
    by (simp add: rename_file_skip)
next
  case True
  then have f: "is_file (files w) name" and m: "serial_match (candidate_code name)"
    by simp_all
  show ?thesis
  proof (cases "map_of mapping (candidate_code name)")
    case None
    from assms show ?thesis
      unfolding rename_file_missing [OF f m None]
      by (cases "out (NotFound (candidate_code name) name)") (simp_all add: py_print_def)
  next
    case (Some title)
    let ?new = "sanitize_filename title @ path_suffix name"
    show ?thesis
    proof (cases "with_name ?new")
      case (Inl e')
      then have "e' = ValueError"
        by (simp add: with_name_def split: if_splits)
      with Inl assms show ?thesis
        unfolding rename_file_found [OF f m Some] by simp
    next
      case (Inr new_path)
      with assms have "try_rename refuse out name new_path ?new w = Inl (e, w')"
        unfolding rename_file_found [OF f m Some] by simp
      then show ?thesis
        by (cases rule: try_rename_cases [of refuse w name new_path out ?new]) simp_all
    qed
  qed
qed

lemma rename_ps2_files_error_kind:
  "fst (rename_ps2_files mapping refuse out names w) = Some e \<Longrightarrow> e = ValueError \<or> e = PrintError"
proof (induction names arbitrary: w)
  case Nil
  then show ?case by simp
next
  case (Cons name names)
  show ?case
  proof (cases "rename_file mapping refuse out name w")
    case (Inl ew)
    obtain e' w' where "ew = (e', w')"
      by (cases ew)
    with Inl Cons.prems rename_file_error_kind [of mapping refuse out name w e' w'] show ?thesis
      by simp
  next
    case (Inr w')
    with Cons.prems Cons.IH [of w'] show ?thesis
      by simp
  qed
qed

lemma rename_file_refused:
  assumes "is_file (files w) name" and "serial_match (candidate_code name)"
    and "map_of mapping (candidate_code name) = Some title"
    and "with_name (sanitize_filename title @ path_suffix name) = Inr new_name"
    and "refuse (files w) name new_name = Some err"
    and "out (ErrorRenaming name err) = None"
  shows "rename_file mapping refuse out name w =
    Inr (w\<lparr>console := console w @ [ErrorRenaming name err]\<rparr>)"
  unfolding rename_file_found [OF assms(1,2,3)]
  using assms(4,5,6) by (simp add: try_rename_def rename_and_report_def py_print_def os_rename_def)

text \<open>
  C6 (amended).  When the operating system refuses the rename of a file (whatever the
  reason and the message) and the error line can be printed, the body of the loop does not
  raise: it prints the error line with the file's name and the message and leaves the
  directory as it is, and the loop goes on with the files that follow in the listing, from
  that world.  The only exceptions that leave \<open>rename_ps2_files\<close> are a \<open>ValueError\<close> of
  \<open>with_name\<close> and an exception of a \<open>print\<close> outside the \<open>try\<close> body.
\<close>

theorem rename_failure_does_not_stop_scan:
  assumes "rename_ps2_files mapping refuse out before w0 = (None, w)"
    and "is_file (files w) name" and "serial_match (candidate_code name)"
    and "map_of mapping (candidate_code name) = Some title"
    and "with_name (sanitize_filename title @ path_suffix name) = Inr new_name"
    and "refuse (files w) name new_name = Some err"
    and "out (ErrorRenaming name err) = None"
  shows "rename_file mapping refuse out name w =
      Inr (w\<lparr>console := console w @ [ErrorRenaming name err]\<rparr>)
    \<and> rename_ps2_files mapping refuse out (before @ name # rest) w0 =
        rename_ps2_files mapping refuse out rest (w\<lparr>console := console w @ [ErrorRenaming name err]\<rparr>)
    \<and> fst (rename_ps2_files mapping refuse out (before @ name # rest) w0)
        \<in> {None, Some ValueError, Some PrintError}"
proof -
  have step: "rename_file mapping refuse out name w =
      Inr (w\<lparr>console := console w @ [ErrorRenaming name err]\<rparr>)"
    using assms(2-7) by (rule rename_file_refused)
  then have "rename_ps2_files mapping refuse out (before @ name # rest) w0 =
        rename_ps2_files mapping refuse out rest (w\<lparr>console := console w @ [ErrorRenaming name err]\<rparr>)"
    using assms(1) by (simp add: rename_ps2_files_append)
  moreover have "fst (rename_ps2_files mapping refuse out (before @ name # rest) w0)
      \<in> {None, Some ValueError, Some PrintError}"
    using rename_ps2_files_error_kind [of mapping refuse out "before @ name # rest" w0]
    by (cases "fst (rename_ps2_files mapping refuse out (before @ name # rest) w0)") auto
  ultimately show ?thesis
    using step by blast
qed

theorem rename_failure_does_not_stop_scan_witness:
  "rename_ps2_files example_mapping refuse_all ascii_console [''notes.txt''] example_dir
     = (None, example_dir)
   \<and> is_file (files example_dir) ''SCUS-12345 (USA).iso''
   \<and> refuse_all (files example_dir) ''SCUS-12345 (USA).iso'' ''Example Game.iso'' = Some ''PermissionError''
   \<and> ascii_console (ErrorRenaming ''SCUS-12345 (USA).iso'' ''PermissionError'') = None
   \<and> rename_ps2_files example_mapping refuse_all ascii_console
        [''notes.txt'', ''SCUS-12345 (USA).iso'', ''SCUS-12345''] example_dir =
      (None, example_dir\<lparr>console :=
         [ErrorRenaming ''SCUS-12345 (USA).iso'' ''PermissionError'',
          ErrorRenaming ''SCUS-12345'' ''PermissionError'']\<rparr>)"
proof -
  have h1: "rename_ps2_files example_mapping refuse_all ascii_console [''notes.txt''] example_dir
      = (None, example_dir)"
    by (simp add: eval_defs)
  have h2: "is_file (files example_dir) ''SCUS-12345 (USA).iso''"
    by (simp add: eval_defs)
  have h3: "serial_match (candidate_code ''SCUS-12345 (USA).iso'')"
    by (simp add: eval_defs)
  have h4: "map_of example_mapping (candidate_code ''SCUS-12345 (USA).iso'') = Some ''Example Game''"
    by (simp add: eval_defs example_mapping_def)
  have h5: "with_name (sanitize_filename ''Example Game'' @ path_suffix ''SCUS-12345 (USA).iso'')
      = Inr ''Example Game.iso''"
    by (simp add: eval_defs)
  have h6: "refuse_all (files example_dir) ''SCUS-12345 (USA).iso'' ''Example Game.iso''
      = Some ''PermissionError''"
    by (simp add: refuse_all_def)
  have h7: "ascii_console (ErrorRenaming ''SCUS-12345 (USA).iso'' ''PermissionError'') = None"
    by (simp add: is_ascii_def)
  have rest: "rename_ps2_files example_mapping refuse_all ascii_console [''SCUS-12345'']
      (example_dir\<lparr>console := console example_dir @
          [ErrorRenaming ''SCUS-12345 (USA).iso'' ''PermissionError'']\<rparr>) =
      (None, example_dir\<lparr>console :=
         [ErrorRenaming ''SCUS-12345 (USA).iso'' ''PermissionError'',
          ErrorRenaming ''SCUS-12345'' ''PermissionError'']\<rparr>)"
    by (simp add: eval_defs example_mapping_def is_ascii_def)
  show ?thesis
    using rename_failure_does_not_stop_scan [OF h1 h2 h3 h4 h5 h6 h7, of "[''SCUS-12345'']"]
      h1 h2 h6 h7 rest
    by simp
qed

text \<open>
  C6 as stated fails when the error line cannot be printed.  On a console whose encoding is
  ASCII, the rename of a file whose name has an accented letter is refused; the handler
  prints the file's name, \<open>print\<close> raises there, the exception leaves the loop, and the file
  \<open>SLUS-20001.bin\<close> that follows in the listing is never looked at (a console that writes
  every line gets its "not found" line).
\<close>

theorem unprintable_error_stops_scan_counterexample:
  "is_file (files accented_dir) accented_name
   \<and> serial_match (candidate_code accented_name)
   \<and> map_of [(''SCUS-12345'', ''Example Game'')] (candidate_code accented_name) = Some ''Example Game''
   \<and> refuse_all (files accented_dir) accented_name ''Example Game.iso'' = Some ''PermissionError''
   \<and> ascii_console (ErrorRenaming accented_name ''PermissionError'') = Some ''UnicodeEncodeError''
   \<and> rename_file [(''SCUS-12345'', ''Example Game'')] refuse_all ascii_console accented_name accented_dir
       = Inl (PrintError, accented_dir)
   \<and> rename_ps2_files [(''SCUS-12345'', ''Example Game'')] refuse_all ascii_console
        [accented_name, ''SLUS-20001.bin''] accented_dir = (Some PrintError, accented_dir)
   \<and> rename_ps2_files [(''SCUS-12345'', ''Example Game'')] refuse_all prints_all
        [accented_name, ''SLUS-20001.bin''] accented_dir =
      (None, accented_dir\<lparr>console :=
         [ErrorRenaming accented_name ''PermissionError'', NotFound ''SLUS-20001'' ''SLUS-20001.bin'']\<rparr>)"
  by (simp add: accented_dir_def accented_name_def is_ascii_def eval_defs)

lemma all_illegal_sanitize:
  assumes "unusable_title title"
  shows "sanitize_filename title = []"
proof -
  have "list_all py_isspace (filter (\<lambda>c. \<not> is_illegal c) title)"
    using assms unfolding unusable_title_def by (induction title) auto
  then have d: "dropWhile py_isspace (filter (\<lambda>c. \<not> is_illegal c) title) = []"
    unfolding list_all_iff dropWhile_eq_Nil_conv .
  show ?thesis
    unfolding sanitize_filename_def py_strip_def d by simp
qed

lemma with_name_suffix:
  assumes "path_suffix name \<noteq> []" and "CHR ''/'' \<notin> set name"
  shows "with_name (path_suffix name) = Inr (path_suffix name)"
proof -
  from assms(1) have hs: "has_suffix name"
    by (auto simp: path_suffix_def split: if_splits)
  then obtain i where i: "rfind CHR ''.'' name = Some i" "0 < i" "Suc i < length name"
    by (auto simp: has_suffix_def split: option.splits)
  with hs have suf: "path_suffix name = drop i name"
    by (simp add: path_suffix_def)
  have "drop i name \<noteq> ''.''"
  proof
    assume "drop i name = ''.''"
    then have "length (drop i name) = length ''.''"
      by (rule arg_cong)
    with i(3) show False
      by simp
  qed
  moreover have "CHR ''/'' \<notin> set (drop i name)"
    using assms(2) by (meson in_set_dropD)
  ultimately show ?thesis
    using assms(1) suf by (simp add: with_name_def)
qed

lemma try_rename_files:
  "files (outcome_world (try_rename refuse out x p n w)) =
     (case os_rename refuse (files w) x p of Inr fs' \<Rightarrow> fs' | Inl err \<Rightarrow> files w)"
  by (cases rule: try_rename_cases [of refuse w x p out n]) simp_all

lemma try_rename_printed:
  assumes "out (Renamed x n) = None" and "\<forall>err. out (ErrorRenaming x err) = None"
  shows "try_rename refuse out x p n w =
    Inr (case os_rename refuse (files w) x p of
           Inr fs' \<Rightarrow> w\<lparr>files := fs', console := console w @ [Renamed x n]\<rparr>
         | Inl err \<Rightarrow> w\<lparr>console := console w @ [ErrorRenaming x err]\<rparr>)"
  using assms by (cases rule: try_rename_cases [of refuse w x p out n]) simp_all

text \<open>
  C10 (amended).  A title made of illegal characters and whitespace only is sanitized to the
  empty string, and no check follows: for a regular file with a matching candidate code
  and a non-empty extension the Renamer attempts the rename, and the new name is the
  extension alone.  The Renamer enters the \<open>try\<close> with that name; the directory it leaves
  is the renamed one unless the operating system refuses; and when the lines can be printed
  it reports the rename, or the refusal, under that name.
\<close>

theorem empty_title_renames_to_extension:
  assumes "unusable_title title"
    and "is_file (files w) name" and "serial_match (candidate_code name)"
    and "map_of mapping (candidate_code name) = Some title"
    and "path_suffix name \<noteq> []" and "CHR ''/'' \<notin> set name"
  shows "sanitize_filename title = []
    \<and> rename_file mapping refuse out name w =
        try_rename refuse out name (path_suffix name) (path_suffix name) w
    \<and> files (outcome_world (rename_file mapping refuse out name w)) =
        (case os_rename refuse (files w) name (path_suffix name) of
           Inr fs' \<Rightarrow> fs'
         | Inl err \<Rightarrow> files w)
    \<and> (out (Renamed name (path_suffix name)) = None \<and> (\<forall>err. out (ErrorRenaming name err) = None)
        \<longrightarrow> rename_file mapping refuse out name w =
        Inr (case os_rename refuse (files w) name (path_suffix name) of
               Inr fs' \<Rightarrow> w\<lparr>files := fs', console := console w @ [Renamed name (path_suffix name)]\<rparr>
             | Inl err \<Rightarrow> w\<lparr>console := console w @ [ErrorRenaming name err]\<rparr>))"
proof -
  have e: "sanitize_filename title = []"
    using assms(1) by (rule all_illegal_sanitize)
  have wn: "with_name (path_suffix name) = Inr (path_suffix name)"
    using assms(5,6) by (rule with_name_suffix)
  have r: "rename_file mapping refuse out name w =
      try_rename refuse out name (path_suffix name) (path_suffix name) w"
    unfolding rename_file_found [OF assms(2,3,4)] by (simp add: e wn)
  show ?thesis
    using e r try_rename_files [of refuse out name "path_suffix name" "path_suffix name" w]
      try_rename_printed [of out name "path_suffix name" refuse "path_suffix name" w]
    by simp
qed

theorem empty_title_renames_to_extension_witness:
  "unusable_title '':?'' \<and> sanitize_filename '':?'' = []
   \<and> is_file (files example_dir) ''SLUS-20001.bin''
   \<and> path_suffix ''SLUS-20001.bin'' = ''.bin''
   \<and> rename_file example_mapping accept_all prints_all ''SLUS-20001.bin'' example_dir =
       Inr (example_dir\<lparr>files := (files example_dir)(''SLUS-20001.bin'' := None, ''.bin'' \<mapsto> RegularFile 4),
                        console := [Renamed ''SLUS-20001.bin'' ''.bin'']\<rparr>)"
proof -
  have h1: "unusable_title '':?''"
    by (simp add: unusable_title_def eval_defs)
  have h2: "is_file (files example_dir) ''SLUS-20001.bin''"
    by (simp add: eval_defs)
  have h3: "serial_match (candidate_code ''SLUS-20001.bin'')"
    by (simp add: eval_defs)
  have h4: "map_of example_mapping (candidate_code ''SLUS-20001.bin'') = Some '':?''"
    by (simp add: eval_defs example_mapping_def)
  have sfx: "path_suffix ''SLUS-20001.bin'' = ''.bin''"
    by (simp add: eval_defs)
  then have h5: "path_suffix ''SLUS-20001.bin'' \<noteq> []"
    by simp
  have h6: "CHR ''/'' \<notin> set ''SLUS-20001.bin''"
    by simp
  have os: "os_rename accept_all (files example_dir) ''SLUS-20001.bin'' ''.bin'' =
      Inr ((files example_dir)(''SLUS-20001.bin'' := None, ''.bin'' \<mapsto> RegularFile 4))"
    by (simp add: os_rename_def accept_all_def example_dir_def)
  have c: "console example_dir = []"
    by (simp add: example_dir_def)
  have p: "prints_all (Renamed ''SLUS-20001.bin'' (path_suffix ''SLUS-20001.bin'')) = None
      \<and> (\<forall>err. prints_all (ErrorRenaming ''SLUS-20001.bin'' err) = None)"
    by (simp add: prints_all_def)
  note t = empty_title_renames_to_extension [OF h1 h2 h3 h4 h5 h6, of accept_all prints_all]
  from t have e: "sanitize_filename '':?'' = []"
    by (rule conjunct1)
  from t [THEN conjunct2, THEN conjunct2, THEN conjunct2, THEN mp, OF p]
  have "rename_file example_mapping accept_all prints_all ''SLUS-20001.bin'' example_dir =
      Inr (case os_rename accept_all (files example_dir) ''SLUS-20001.bin''
                  (path_suffix ''SLUS-20001.bin'') of
             Inr fs' \<Rightarrow> example_dir\<lparr>files := fs',
               console := console example_dir @
                 [Renamed ''SLUS-20001.bin'' (path_suffix ''SLUS-20001.bin'')]\<rparr>
           | Inl err \<Rightarrow> example_dir\<lparr>console := console example_dir @
                 [ErrorRenaming ''SLUS-20001.bin'' err]\<rparr>)" .
  with e h1 h2 sfx os c show ?thesis
    by simp
qed

text \<open>
  C10 as stated fails for a file without an extension: the title \<open>?\<close> is sanitized to the
  empty string, the new name of the file \<open>SCUS-12345\<close> is then empty, \<open>with_name\<close> raises
  \<open>ValueError\<close> before the \<open>try\<close>, and no rename is attempted; the scan ends there.
\<close>

theorem empty_title_no_extension_counterexample:
  "unusable_title ''?''
   \<and> is_file (files example_dir) ''SCUS-12345''
   \<and> serial_match (candidate_code ''SCUS-12345'')
   \<and> map_of [(''SCUS-12345'', ''?'')] (candidate_code ''SCUS-12345'') = Some ''?''
   \<and> sanitize_filename ''?'' @ path_suffix ''SCUS-12345'' = []
   \<and> rename_file [(''SCUS-12345'', ''?'')] accept_all prints_all ''SCUS-12345'' example_dir
       = Inl (ValueError, example_dir)
   \<and> rename_ps2_files [(''SCUS-12345'', ''?'')] accept_all prints_all
        [''SCUS-12345'', ''SCUS-12345 (USA).iso''] example_dir = (Some ValueError, example_dir)"
  by (simp add: unusable_title_def eval_defs)

section \<open>Running the Renamer twice\<close>

lemma rename_file_cases:
  assumes "rename_file mapping refuse out x w = Inr w'"
  obtains (skip) "w' = w" "\<not> (is_file (files w) x \<and> serial_match (candidate_code x))"
  | (missing) "w' = w\<lparr>console := console w @ [NotFound (candidate_code x) x]\<rparr>"
      "map_of mapping (candidate_code x) = None"
  | (refused) err where "w' = w\<lparr>console := console w @ [ErrorRenaming x err]\<rparr>"
  | (renamed) new n where "files w x = Some n"
      "w' = w\<lparr>files := (files w)(x := None, new \<mapsto> n), console := console w @ [Renamed x new]\<rparr>"
  | (unreported) new n msg where "files w x = Some n"
      "w' = w\<lparr>files := (files w)(x := None, new \<mapsto> n),
                console := console w @ [ErrorRenaming x msg]\<rparr>"
proof (cases "is_file (files w) x \<and> serial_match (candidate_code x)")
  case False
  with assms have "w' = w"
    by (simp add: rename_file_skip)
  from this False show ?thesis
    by (rule skip)
next
  case True
  then have f: "is_file (files w) x" and m: "serial_match (candidate_code x)"
    by simp_all
  show ?thesis
  proof (cases "map_of mapping (candidate_code x)")
    case None
    from assms have "w' = w\<lparr>console := console w @ [NotFound (candidate_code x) x]\<rparr>"
      unfolding rename_file_missing [OF f m None]
      by (cases "out (NotFound (candidate_code x) x)") (simp_all add: py_print_def)
    then show ?thesis
      using None by (rule missing)
  next
    case (Some title)
    let ?new = "sanitize_filename title @ path_suffix x"
    from assms have body:
      "(case with_name ?new of
          Inl e \<Rightarrow> Inl (e, w)
        | Inr new_path \<Rightarrow> try_rename refuse out x new_path ?new w) = Inr w'"
      unfolding rename_file_found [OF f m Some] .
    then have wn: "with_name ?new = Inr ?new"
      by (simp add: with_name_def split: if_splits)
    with body have tr: "try_rename refuse out x ?new ?new w = Inr w'"
      by simp
    have moved: "\<exists>n. files w x = Some n \<and> fs' = (files w)(x := None, ?new \<mapsto> n)"
      if "os_rename refuse (files w) x ?new = Inr fs'" for fs'
      using that by (auto simp: os_rename_def split: option.splits)
    show ?thesis
    proof (cases rule: try_rename_cases [of refuse w x ?new out ?new])
      case r: (refused err)
      with tr have "w' = w\<lparr>console := console w @ [ErrorRenaming x err]\<rparr>"
        by simp
      then show ?thesis
        by (rule refused)
    next
      case (refused_unprinted err)
      with tr show ?thesis
        by simp
    next
      case r: (renamed fs')
      from moved [OF r(1)] obtain n where n: "files w x = Some n"
        and fs': "fs' = (files w)(x := None, ?new \<mapsto> n)"
        by blast
      from r(3) tr fs'
      have "w' = w\<lparr>files := (files w)(x := None, ?new \<mapsto> n), console := console w @ [Renamed x ?new]\<rparr>"
        by simp
      with n show ?thesis
        by (rule renamed)
    next
      case r: (unreported fs' msg)
      from moved [OF r(1)] obtain n where n: "files w x = Some n"
        and fs': "fs' = (files w)(x := None, ?new \<mapsto> n)"
        by blast
      from r(4) tr fs'
      have "w' = w\<lparr>files := (files w)(x := None, ?new \<mapsto> n),
          console := console w @ [ErrorRenaming x msg]\<rparr>"
        by simp
      with n show ?thesis
        by (rule unreported)
    next
      case (unprinted fs' msg)
      with tr show ?thesis
        by simp
    qed
  qed
qed

lemma rename_file_raise_console:
  assumes "rename_file mapping refuse out x w = Inl (e, w')"
  shows "console w' = console w"
proof (cases "is_file (files w) x \<and> serial_match (candidate_code x)")
  case False
  with assms show ?thesis
    by (simp add: rename_file_skip)
next
  case True
  then have f: "is_file (files w) x" and m: "serial_match (candidate_code x)"
    by simp_all
  show ?thesis
  proof (cases "map_of mapping (candidate_code x)")
    case None
    from assms show ?thesis
      unfolding rename_file_missing [OF f m None]
      by (cases "out (NotFound (candidate_code x) x)") (auto simp: py_print_def)
  next
    case (Some title)
    let ?new = "sanitize_filename title @ path_suffix x"
    show ?thesis
    proof (cases "with_name ?new")
      case (Inl e')
      with assms show ?thesis
        unfolding rename_file_found [OF f m Some] by auto
    next
      case (Inr new_path)
      with assms have "try_rename refuse out x new_path ?new w = Inl (e, w')"
        unfolding rename_file_found [OF f m Some] by simp
      then show ?thesis
        by (cases rule: try_rename_cases [of refuse w x new_path out ?new]) auto
    qed
  qed
qed

lemma set_rename_targets:
  "set (rename_targets ls) = {new. \<exists>old. Renamed old new \<in> set ls}"
proof -
  have "\<And>l new. new \<in> set (rename_target l) \<longleftrightarrow> (\<exists>old. l = Renamed old new)"
    by (case_tac l) auto
  then show ?thesis
    by (auto simp: rename_targets_def)
qed

lemma rename_targets_mono:
  "set ls \<subseteq> set ls' \<Longrightarrow> set (rename_targets ls) \<subseteq> set (rename_targets ls')"
  by (auto simp: set_rename_targets)

lemma rename_file_frame:
  assumes "rename_file mapping refuse out x w = Inr w'"
  shows "set (console w) \<subseteq> set (console w')"
    and "n \<notin> set (rename_targets (console w')) \<Longrightarrow> \<forall>l\<in>set (console w'). \<not> is_error_line l \<Longrightarrow>
      files w' n = files w n \<or> files w' n = None"
proof -
  from assms show "set (console w) \<subseteq> set (console w')"
    by (cases rule: rename_file_cases) auto
  assume "n \<notin> set (rename_targets (console w'))" and "\<forall>l\<in>set (console w'). \<not> is_error_line l"
  with assms show "files w' n = files w n \<or> files w' n = None"
    by (cases rule: rename_file_cases) (auto simp: set_rename_targets)
qed

lemma rename_ps2_files_console:
  "rename_ps2_files mapping refuse out names w = (e, w') \<Longrightarrow> set (console w) \<subseteq> set (console w')"
proof (induction names arbitrary: w)
  case Nil
  then show ?case by simp
next
  case (Cons x xs)
  show ?case
  proof (cases "rename_file mapping refuse out x w")
    case (Inl ew)
    obtain e1 w1 where ew: "ew = (e1, w1)"
      by (cases ew)
    with Inl Cons.prems have "w' = w1"
      by simp
    with Inl ew rename_file_raise_console [of mapping refuse out x w e1 w1] show ?thesis
      by simp
  next
    case (Inr wx)
    with Cons.prems have "rename_ps2_files mapping refuse out xs wx = (e, w')"
      by simp
    from Cons.IH [OF this] rename_file_frame(1) [OF Inr] show ?thesis
      by blast
  qed
qed

lemma rename_ps2_files_frame:
  assumes "rename_ps2_files mapping refuse out names w = (None, w')"
    and "\<forall>l\<in>set (console w'). \<not> is_error_line l"
    and "n \<notin> set (rename_targets (console w'))"
  shows "files w' n = files w n \<or> files w' n = None"
  using assms(1)
proof (induction names arbitrary: w)
  case Nil
  then show ?case by simp
next
  case (Cons x xs)
  show ?case
  proof (cases "rename_file mapping refuse out x w")
    case (Inl ew)
    with Cons.prems show ?thesis
      by (cases ew) simp
  next
    case (Inr wx)
    with Cons.prems have run: "rename_ps2_files mapping refuse out xs wx = (None, w')"
      by simp
    from rename_ps2_files_console [OF run] have sub: "set (console wx) \<subseteq> set (console w')" .
    with assms(3) have nt: "n \<notin> set (rename_targets (console wx))"
      using rename_targets_mono by blast
    from sub assms(2) have ne: "\<forall>l\<in>set (console wx). \<not> is_error_line l"
      by blast
    from rename_file_frame(2) [OF Inr nt ne] have "files wx n = files w n \<or> files wx n = None" .
    moreover from Cons.IH [OF run] have "files w' n = files wx n \<or> files w' n = None" .
    ultimately show ?thesis
      by auto
  qed
qed

lemma renamed_file_is_gone:
  assumes "rename_ps2_files mapping refuse out names w = (None, w')"
    and "\<forall>l\<in>set (console w'). \<not> is_error_line l"
    and "n \<in> set names" and "n \<notin> set (rename_targets (console w'))"
    and "is_file (files w) n" and "serial_match (candidate_code n)"
    and "map_of mapping (candidate_code n) \<noteq> None"
  shows "files w' n = None"
  using assms(1,3,5)
proof (induction names arbitrary: w)
  case Nil
  then show ?case by simp
next
  case (Cons x xs)
  show ?case
  proof (cases "rename_file mapping refuse out x w")
    case (Inl ew)
    with Cons.prems(1) show ?thesis
      by (cases ew) simp
  next
    case (Inr wx)
    with Cons.prems(1) have run: "rename_ps2_files mapping refuse out xs wx = (None, w')"
      by simp
    from rename_ps2_files_frame [OF run assms(2,4)]
    have rest: "files w' n = files wx n \<or> files w' n = None" .
    from rename_ps2_files_console [OF run] have sub: "set (console wx) \<subseteq> set (console w')" .
    with assms(4) have nt: "n \<notin> set (rename_targets (console wx))"
      using rename_targets_mono by blast
    from sub assms(2) have noerr: "\<forall>l\<in>set (console wx). \<not> is_error_line l"
      by blast
    show ?thesis
    proof (cases "x = n")
      case True
      from Inr have "files wx n = None"
      proof (cases rule: rename_file_cases)
        case skip
        with True Cons.prems(3) assms(6) show ?thesis by simp
      next
        case missing
        with True assms(7) show ?thesis by simp
      next
        case (refused err)
        with noerr show ?thesis by auto
      next
        case (renamed new node)
        with nt have "new \<noteq> n"
          by (auto simp: set_rename_targets)
        with renamed True show ?thesis by simp
      next
        case (unreported new node msg)
        with noerr show ?thesis by auto
      qed
      with rest show ?thesis by auto
    next
      case False
      with Cons.prems(2) have inxs: "n \<in> set xs"
        by simp
      from rename_file_frame(2) [OF Inr nt noerr]
      have "files wx n = files w n \<or> files wx n = None" .
      then show ?thesis
      proof
        assume "files wx n = files w n"
        with Cons.prems(3) have "is_file (files wx) n"
          by (simp add: is_file_def)
        with run inxs show ?thesis
          by (rule Cons.IH)
      next
        assume "files wx n = None"
        with rest show ?thesis by auto
      qed
    qed
  qed
qed

lemma idle_run:
  assumes "\<forall>n\<in>set names. \<not> (is_file (files w) n \<and> serial_match (candidate_code n)
      \<and> map_of mapping (candidate_code n) \<noteq> None)"
  shows "\<exists>e added. rename_ps2_files mapping refuse out names w =
        (e, w\<lparr>console := console w @ added\<rparr>)
      \<and> list_all is_not_found added
      \<and> (e = None \<or> e = Some PrintError)
      \<and> ((\<forall>code name. out (NotFound code name) = None) \<longrightarrow> e = None)"
  using assms
proof (induction names arbitrary: w)
  case Nil
  have "rename_ps2_files mapping refuse out [] w = (None, w\<lparr>console := console w @ []\<rparr>)"
    by simp
  then show ?case
    by (intro exI [of _ None] exI [of _ "[]"]) simp
next
  case (Cons x xs)
  from Cons.prems have idle: "\<not> (is_file (files w) x \<and> serial_match (candidate_code x)
      \<and> map_of mapping (candidate_code x) \<noteq> None)"
    by simp
  let ?l = "NotFound (candidate_code x) x"
  consider (quiet) "rename_file mapping refuse out x w = Inr (w\<lparr>console := console w @ []\<rparr>)"
    | (said) "rename_file mapping refuse out x w = Inr (w\<lparr>console := console w @ [?l]\<rparr>)"
    | (raised) "rename_file mapping refuse out x w = Inl (PrintError, w)" "out ?l \<noteq> None"
  proof (cases "is_file (files w) x \<and> serial_match (candidate_code x)")
    case False
    then have "rename_file mapping refuse out x w = Inr (w\<lparr>console := console w @ []\<rparr>)"
      by (simp add: rename_file_skip)
    then show ?thesis
      by (rule quiet)
  next
    case True
    with idle have f: "is_file (files w) x" and m: "serial_match (candidate_code x)"
      and n: "map_of mapping (candidate_code x) = None"
      by simp_all
    show ?thesis
    proof (cases "out ?l")
      case None
      then have "rename_file mapping refuse out x w = Inr (w\<lparr>console := console w @ [?l]\<rparr>)"
        unfolding rename_file_missing [OF f m n] by (simp add: py_print_def)
      then show ?thesis
        by (rule said)
    next
      case (Some msg)
      then have "rename_file mapping refuse out x w = Inl (PrintError, w)"
        unfolding rename_file_missing [OF f m n] by (simp add: py_print_def)
      with Some show ?thesis
        by (intro raised) simp_all
    qed
  qed
  then show ?case
  proof cases
    case raised
    then have "rename_ps2_files mapping refuse out (x # xs) w =
        (Some PrintError, w\<lparr>console := console w @ []\<rparr>)"
      by simp
    with raised(2) show ?thesis
      by (intro exI [of _ "Some PrintError"] exI [of _ "[]"]) auto
  next
    case quiet
    let ?wx = "w\<lparr>console := console w @ []\<rparr>"
    from Cons.prems have "\<forall>n\<in>set xs. \<not> (is_file (files ?wx) n \<and> serial_match (candidate_code n)
        \<and> map_of mapping (candidate_code n) \<noteq> None)"
      by simp
    from Cons.IH [OF this] obtain e added where
      run: "rename_ps2_files mapping refuse out xs ?wx = (e, ?wx\<lparr>console := console ?wx @ added\<rparr>)"
      and added: "list_all is_not_found added" and e: "e = None \<or> e = Some PrintError"
      and pr: "(\<forall>code name. out (NotFound code name) = None) \<longrightarrow> e = None"
      by blast
    from quiet run have "rename_ps2_files mapping refuse out (x # xs) w =
        (e, w\<lparr>console := console w @ added\<rparr>)"
      by simp
    with added e pr show ?thesis
      by blast
  next
    case said
    let ?wx = "w\<lparr>console := console w @ [?l]\<rparr>"
    from Cons.prems have "\<forall>n\<in>set xs. \<not> (is_file (files ?wx) n \<and> serial_match (candidate_code n)
        \<and> map_of mapping (candidate_code n) \<noteq> None)"
      by simp
    from Cons.IH [OF this] obtain e added where
      run: "rename_ps2_files mapping refuse out xs ?wx = (e, ?wx\<lparr>console := console ?wx @ added\<rparr>)"
      and added: "list_all is_not_found added" and e: "e = None \<or> e = Some PrintError"
      and pr: "(\<forall>code name. out (NotFound code name) = None) \<longrightarrow> e = None"
      by blast
    from said run have "rename_ps2_files mapping refuse out (x # xs) w =
        (e, w\<lparr>console := console w @ (?l # added)\<rparr>)"
      by simp
    moreover from added have "list_all is_not_found (?l # added)"
      by simp
    ultimately show ?thesis
      using e pr by blast
  qed
qed

text \<open>
  C8 (amended).  Let a first run over a listing that holds every regular file of the
  directory end without an exception, with no error line printed, and such that no new
  name it gave yields a candidate code that matches the pattern and is a key of the
  mapping.  Then a second run, over any listing, whatever the operating system would refuse
  and whatever the console can print, renames nothing: it leaves the directory as it is and
  prints at most "not found" lines; it ends without an exception unless the print of such a
  line raises, and so whenever every "not found" line can be printed.
\<close>

theorem second_run_renames_nothing:
  assumes "rename_ps2_files mapping refuse out names w0 = (None, w1)"
    and "\<forall>n. is_file (files w0) n \<longrightarrow> n \<in> set names"
    and "settled mapping (console w1)"
  shows "\<exists>e added. rename_ps2_files mapping refuse' out' names' w1 =
        (e, w1\<lparr>console := console w1 @ added\<rparr>)
      \<and> list_all is_not_found added
      \<and> (e = None \<or> e = Some PrintError)
      \<and> ((\<forall>code name. out' (NotFound code name) = None) \<longrightarrow> e = None)"
proof (rule idle_run, rule ballI, rule notI)
  fix n
  assume a: "is_file (files w1) n \<and> serial_match (candidate_code n)
      \<and> map_of mapping (candidate_code n) \<noteq> None"
  from assms(3) have noerr: "\<forall>l\<in>set (console w1). \<not> is_error_line l"
    and nore: "\<forall>l\<in>set (console w1). \<not> retriggers mapping l"
    by (auto simp: settled_def list_all_iff)
  have nt: "n \<notin> set (rename_targets (console w1))"
  proof
    assume "n \<in> set (rename_targets (console w1))"
    then obtain old where "Renamed old n \<in> set (console w1)"
      by (auto simp: set_rename_targets)
    with nore have "\<not> retriggers mapping (Renamed old n)"
      by blast
    with a show False
      by simp
  qed
  from rename_ps2_files_frame [OF assms(1) noerr nt]
  have "files w1 n = files w0 n \<or> files w1 n = None" .
  with a have same: "files w1 n = files w0 n"
    by (auto simp: is_file_def)
  with a have f0: "is_file (files w0) n"
    by (simp add: is_file_def)
  with assms(2) have "n \<in> set names"
    by blast
  with assms(1) noerr have "files w1 n = None"
    using nt f0 a by (intro renamed_file_is_gone [where w = w0]) auto
  with a show False
    by (simp add: is_file_def)
qed

theorem second_run_renames_nothing_witness:
  "fst example_first_run = None
   \<and> console (snd example_first_run) =
       [Renamed ''SCUS-12345 (USA).iso'' ''Example Game.iso'', Renamed ''SCUS-12345'' ''Example Game'',
        NotFound ''SLUS-20001'' ''SLUS-20001.bin'']
   \<and> settled [(''SCUS-12345'', ''Example Game'')] (console (snd example_first_run))
   \<and> (\<exists>e added.
         rename_ps2_files [(''SCUS-12345'', ''Example Game'')] refuse_all prints_all
           [''Example Game.iso'', ''notes.txt'', ''Example Game'', ''SLUS-20001.bin'']
           (snd example_first_run) =
         (e, (snd example_first_run)\<lparr>console := console (snd example_first_run) @ added\<rparr>)
         \<and> list_all is_not_found added \<and> e = None)"
proof -
  have c: "console (snd example_first_run) =
       [Renamed ''SCUS-12345 (USA).iso'' ''Example Game.iso'', Renamed ''SCUS-12345'' ''Example Game'',
        NotFound ''SLUS-20001'' ''SLUS-20001.bin'']"
    by (simp add: example_first_run_def example_listing_def eval_defs)
  have f: "fst example_first_run = None"
    by (simp add: example_first_run_def example_listing_def eval_defs)
  then have h1: "rename_ps2_files [(''SCUS-12345'', ''Example Game'')] accept_all prints_all
      example_listing example_dir = (None, snd example_first_run)"
    by (metis example_first_run_def prod.collapse)
  have h2: "\<forall>n. is_file (files example_dir) n \<longrightarrow> n \<in> set example_listing"
    by (simp add: example_dir_def example_listing_def is_file_def)
  have h3: "settled [(''SCUS-12345'', ''Example Game'')] (console (snd example_first_run))"
    unfolding c by (simp add: settled_def eval_defs)
  have p: "\<forall>code name. prints_all (NotFound code name) = None"
    by (simp add: prints_all_def)
  from second_run_renames_nothing [OF h1 h2 h3, of refuse_all prints_all
        "[''Example Game.iso'', ''notes.txt'', ''Example Game'', ''SLUS-20001.bin'']"] p
  have "\<exists>e added.
         rename_ps2_files [(''SCUS-12345'', ''Example Game'')] refuse_all prints_all
           [''Example Game.iso'', ''notes.txt'', ''Example Game'', ''SLUS-20001.bin'']
           (snd example_first_run) =
         (e, (snd example_first_run)\<lparr>console := console (snd example_first_run) @ added\<rparr>)
         \<and> list_all is_not_found added \<and> e = None"
    by blast
  with c f h3 show ?thesis
    by simp
qed

text \<open>
  C8 as stated fails for a mapping with a title that is itself a serial code in the mapping:
  the first run renames \<open>SCUS-12345.iso\<close> to \<open>SLUS-54321.iso\<close>, which is then the only
  entry of the directory, and the second run renames that file to \<open>Final.iso\<close>.
\<close>

theorem second_run_renames_again_counterexample:
  "fst chain_first_run = None
   \<and> console (snd chain_first_run) = [Renamed ''SCUS-12345.iso'' ''SLUS-54321.iso'']
   \<and> dom (files (snd chain_first_run)) = {''SLUS-54321.iso''}
   \<and> serial_match (candidate_code ''SLUS-54321.iso'')
   \<and> fst chain_second_run = None
   \<and> console (snd chain_second_run) =
       [Renamed ''SCUS-12345.iso'' ''SLUS-54321.iso'', Renamed ''SLUS-54321.iso'' ''Final.iso'']
   \<and> dom (files (snd chain_second_run)) = {''Final.iso''}"
  by (simp add: chain_second_run_def chain_first_run_def chain_mapping_def chain_dir_def eval_defs)

section \<open>Facts about the Title Selector\<close>

lemma get_text_field:
  assumes "is_object t" and "text_or_null (field t key)"
  shows "get_text t key = Inr (text_of (field t key))"
proof -
  from assms(1) obtain kvs where t: "t = JObj kvs"
    by (cases t) auto
  then have g: "py_get t key = Inr (field t key)"
    by (simp add: py_get_def)
  from assms(2) show ?thesis
    unfolding get_text_def g by (cases "field t key") (auto simp: py_or_def)
qed

lemma scan_translations_find:
  assumes "list_all wf_translation ts"
  shows "scan_translations ts d =
    Inr (case find qualifies (map (\<lambda>t. (text_of (field t ''language''), text_of (field t ''value''))) ts) of
           Some tr \<Rightarrow> py_strip (snd tr)
         | None \<Rightarrow> d)"
  using assms
proof (induction ts)
  case Nil
  then show ?case by simp
next
  case (Cons t ts)
  from Cons.prems have wft: "wf_translation t" and rest: "list_all wf_translation ts"
    by simp_all
  from wft have wf: "is_object t" "text_or_null (field t ''language'')"
      "text_or_null (field t ''value'')"
    by (simp_all add: wf_translation_def)
  have l: "get_text t ''language'' = Inr (text_of (field t ''language''))"
    using wf(1,2) by (rule get_text_field)
  have v: "get_text t ''value'' = Inr (text_of (field t ''value''))"
    using wf(1,3) by (rule get_text_field)
  show ?case
    using Cons.IH [OF rest] by (simp add: l v qualifies_def Let_def)
qed

lemma pick_title_selects:
  assumes "is_object entry" and "wf_name (field entry ''name'')"
  shows "pick_title entry =
    Inr (title_selector (name_default (field entry ''name'')) (name_translations (field entry ''name'')))"
proof -
  let ?nm = "field entry ''name''"
  let ?info = "py_or ?nm (JObj [])"
  from assms(1) obtain kvs where "entry = JObj kvs"
    by (cases entry) auto
  then have g: "py_get entry ''name'' = Inr ?nm"
    by (simp add: py_get_def)
  have info: "is_object ?info \<and> text_or_null (field ?info ''default_value'')
      \<and> list_or_null (field ?info ''translations'')
      \<and> list_all wf_translation (elements (field ?info ''translations''))
      \<and> field ?info ''default_value'' = field ?nm ''default_value''
      \<and> field ?info ''translations'' = field ?nm ''translations''"
    using assms(2) by (cases ?nm) (auto simp: wf_name_def py_or_def)
  then obtain ikvs where ikvs: "?info = JObj ikvs"
    by (cases ?info) auto
  from info have io: "is_object ?info" and it: "text_or_null (field ?info ''default_value'')"
    and ieq: "field ?info ''default_value'' = field ?nm ''default_value''"
    by blast+
  have d: "get_text ?info ''default_value'' = Inr (text_of (field ?nm ''default_value''))"
    using get_text_field [OF io it] unfolding ieq .
  have tr: "py_get ?info ''translations'' = Inr (field ?nm ''translations'')"
    using info ikvs by (simp add: py_get_def)
  let ?ts = "elements (field ?nm ''translations'')"
  have iter: "py_iter (py_or (field ?nm ''translations'') (JArr [])) = Inr ?ts"
    using info by (cases "field ?nm ''translations''") (auto simp: py_or_def)
  have wfts: "list_all wf_translation ?ts"
    using info by metis
  show ?thesis
    unfolding pick_title_def g
    by (simp add: Let_def d tr iter scan_translations_find [OF wfts] title_selector_def
        name_default_def name_translations_def)
qed

lemma lower_table:
  "map (\<lambda>c. (of_char c :: nat)) upper_letters = [65..<91] @ [192..<215] @ [216..<223]"
  "map (\<lambda>c. (of_char c :: nat) + 32) upper_letters = map of_char lower_letters"
  by code_simp+

lemmas json_eval_defs =
  pick_title_def game_json_def name_json_def translation_json_def page_json_def
  py_get_def get_text_def py_or_def py_lower_def lower_char_def upper_letters_def
  lower_letters_def py_strip_def py_isspace_def wf_name_def wf_translation_def wf_entry_def
  title_selector_def name_default_def name_translations_def qualifies_def entry_serial_def
  page_entries_def process_page_def empty_table_def Let_def

text \<open>
  C2.  For every entry whose name structure has the shape of the catalog (fields may be
  \<open>null\<close> or absent), \<open>pick_title\<close> raises nothing and returns what the Title Selector of
  the specification returns: the trimmed value of the first translation, in sequence order,
  whose language tag contains \<open>english\<close> in any case and whose value is not empty after
  trimming, and the trimmed default title when there is none.  For the translations French
  X, English (US) Y and the default Z it returns Y; without an English translation it
  returns Z; with everything empty it returns the empty string.
\<close>

theorem pick_title_prefers_english:
  "(is_object entry \<and> wf_name (field entry ''name'') \<longrightarrow>
      pick_title entry =
        Inr (title_selector (name_default (field entry ''name''))
               (name_translations (field entry ''name''))))
   \<and> pick_title (JObj [(''name'', name_json ''Z''
          [translation_json ''French'' ''X'', translation_json ''English (US)'' ''Y''])]) = Inr ''Y''
   \<and> pick_title (JObj [(''name'', name_json ''Z''
          [translation_json ''French'' ''X'', translation_json ''German'' ''Y''])]) = Inr ''Z''
   \<and> pick_title (JObj [(''name'', name_json [] [translation_json ''English'' '' ''])]) = Inr []
   \<and> pick_title (JObj [(''name'', JNull)]) = Inr []"
proof -
  have e1: "pick_title (JObj [(''name'', name_json ''Z''
          [translation_json ''French'' ''X'', translation_json ''English (US)'' ''Y''])]) = Inr ''Y''"
    by (simp add: json_eval_defs)
  have e2: "pick_title (JObj [(''name'', name_json ''Z''
          [translation_json ''French'' ''X'', translation_json ''German'' ''Y''])]) = Inr ''Z''"
    by (simp add: json_eval_defs)
  have e3: "pick_title (JObj [(''name'', name_json [] [translation_json ''English'' '' ''])]) = Inr []"
    by (simp add: json_eval_defs)
  have e4: "pick_title (JObj [(''name'', JNull)]) = Inr []"
    by (simp add: json_eval_defs)
  from e1 e2 e3 e4 show ?thesis
    using pick_title_selects [of entry] by blast
qed

theorem pick_title_prefers_english_witness:
  "is_object (game_json ''SCUS'' ''12345'' (name_json '' Zed ''
      [translation_json ''French'' ''X'', translation_json ''ENGLISH'' '' '',
       translation_json ''English (US)'' '' Y '', translation_json ''english'' ''W'']))
   \<and> wf_name (name_json '' Zed ''
      [translation_json ''French'' ''X'', translation_json ''ENGLISH'' '' '',
       translation_json ''English (US)'' '' Y '', translation_json ''english'' ''W''])
   \<and> pick_title (game_json ''SCUS'' ''12345'' (name_json '' Zed ''
      [translation_json ''French'' ''X'', translation_json ''ENGLISH'' '' '',
       translation_json ''English (US)'' '' Y '', translation_json ''english'' ''W''])) = Inr ''Y''"
proof -
  let ?n = "name_json '' Zed ''
      [translation_json ''French'' ''X'', translation_json ''ENGLISH'' '' '',
       translation_json ''English (US)'' '' Y '', translation_json ''english'' ''W'']"
  let ?e = "game_json ''SCUS'' ''12345'' ?n"
  have f: "field ?e ''name'' = ?n"
    by (simp add: game_json_def)
  have o: "is_object ?e"
    by (simp add: game_json_def)
  have w: "wf_name ?n"
    by (simp add: json_eval_defs)
  have s: "title_selector (name_default ?n) (name_translations ?n) = ''Y''"
    by (simp add: json_eval_defs)
  show ?thesis
    using pick_title_prefers_english [of ?e] o w s unfolding f by simp
qed

section \<open>Facts about the Mapping Builder\<close>

lemma page_next:
  assumes "process_page data t = Inr t'"
  shows "py_get data ''next'' = Inr (next_url data)"
proof (cases data)
  case (JObj kvs)
  then show ?thesis
    by (simp add: py_get_def next_url_def)
qed (use assms in \<open>simp_all add: process_page_def page_entries_def\<close>)

lemma fetch_loop_serves:
  assumes "serves srv (length requested) url pages"
  shows "fetch_loop srv url requested t =
    Some (case process_pages pages t of
            Inl e \<Rightarrow> Inl e
          | Inr t' \<Rightarrow> Inr (requested @ request_urls url pages, t'))"
  using assms
proof (induction pages arbitrary: url requested t)
  case Nil
  then show ?case
    by (simp add: fetch_loop.simps)
next
  case (Cons data pages)
  from Cons.prems have tr: "truthy url" and fj: "fetch_json srv (length requested) url = Inr data"
    and rest: "serves srv (length (requested @ [text_of url])) (next_url data) pages"
    by simp_all
  show ?case
  proof (cases "process_page data t")
    case (Inl e)
    with tr fj show ?thesis
      by (subst fetch_loop.simps) simp
  next
    case (Inr t')
    note ih = Cons.IH [OF rest, of t']
    from Inr have nx: "py_get data ''next'' = Inr (next_url data)"
      by (rule page_next)
    show ?thesis
      using tr fj Inr nx ih by (subst fetch_loop.simps) (simp split: sum.splits)
  qed
qed

lemma fetch_loop_fails:
  assumes "fails_after srv (length requested) url t pages"
  shows "fetch_loop srv url requested t = Some (Inl FetchError)"
  using assms
proof (induction pages arbitrary: url requested t)
  case Nil
  then show ?case
    by (subst fetch_loop.simps) simp
next
  case (Cons data pages)
  from Cons.prems have tr: "truthy url" and fj: "fetch_json srv (length requested) url = Inr data"
    by simp_all
  from Cons.prems obtain t' where pp: "process_page data t = Inr t'"
    and rest: "fails_after srv (length (requested @ [text_of url])) (next_url data) t' pages"
    by (auto split: sum.splits)
  from pp have nx: "py_get data ''next'' = Inr (next_url data)"
    by (rule page_next)
  show ?case
    using tr fj pp nx Cons.IH [OF rest] by (subst fetch_loop.simps) simp
qed

lemma linked_serves:
  "linked srv k u pages \<Longrightarrow> serves srv k (JStr u) pages"
proof (induction srv k u pages rule: linked.induct)
  case (1 srv k u)
  then show ?case by simp
next
  case (2 srv k u data)
  then show ?case by auto
next
  case (3 srv k u data following pages)
  then have a: "u \<noteq> []" "srv k u = Some data" "text_or_null (next_url data)"
    and l: "linked srv (Suc k) (text_of (next_url data)) (following # pages)"
    by simp_all
  from l have ne: "text_of (next_url data) \<noteq> []"
    by (cases pages) simp_all
  with a(3) have nx: "next_url data = JStr (text_of (next_url data))"
    by (cases "next_url data") simp_all
  from "3.IH" l have "serves srv (Suc k) (JStr (text_of (next_url data))) (following # pages)"
    by simp
  with nx have "serves srv (Suc k) (next_url data) (following # pages)"
    by simp
  with a show ?case
    by simp
qed

lemma request_urls_length: "length (request_urls url pages) = length pages"
  by (induction pages arbitrary: url) simp_all

lemma entry_serial_wf:
  assumes "wf_entry entry"
  shows "\<exists>r. entry_serial entry = Inr r"
proof -
  from assms have obj: "is_object entry" and sys: "list_or_null (field entry ''systems'')"
    and ct: "text_or_null (field entry ''content_type'')"
    and tt: "text_or_null (field entry ''title_id_type'')"
    and tn: "text_or_null (field entry ''title_id_number'')"
    by (simp_all add: wf_entry_def)
  from obj obtain kvs where "entry = JObj kvs"
    by (cases entry) auto
  then have g: "py_get entry ''systems'' = Inr (field entry ''systems'')"
    by (simp add: py_get_def)
  from sys have "\<exists>b. py_in ''PlayStation 2'' (py_or (field entry ''systems'') (JArr [])) = Inr b"
    by (cases "field entry ''systems''"; cases "truthy (field entry ''systems'')")
      (auto simp: py_or_def)
  then obtain b where m: "py_in ''PlayStation 2'' (py_or (field entry ''systems'') (JArr [])) = Inr b"
    by blast
  show ?thesis
    unfolding entry_serial_def g
    by (simp add: m get_text_field [OF obj ct] get_text_field [OF obj tt]
        get_text_field [OF obj tn] Let_def)
qed

lemma process_entry_wf:
  assumes "wf_entry entry"
  shows "\<exists>t'. process_entry entry t = Inr t'"
proof -
  obtain mapping seen_ids where t: "t = (mapping, seen_ids)"
    by (cases t)
  from assms obtain r where r: "entry_serial entry = Inr r"
    using entry_serial_wf by blast
  from assms have "is_object entry" and "wf_name (field entry ''name'')"
    by (simp_all add: wf_entry_def)
  then obtain title where p: "pick_title entry = Inr title"
    using pick_title_selects by blast
  show ?thesis
    unfolding t by (cases r) (simp_all add: r p)
qed

lemma process_entries_wf:
  "list_all wf_entry entries \<Longrightarrow> \<exists>t'. process_entries entries t = Inr t'"
proof (induction entries arbitrary: t)
  case Nil
  then show ?case by simp
next
  case (Cons entry entries)
  from Cons.prems have wf: "wf_entry entry" and rest: "list_all wf_entry entries"
    by simp_all
  from wf obtain t1 where t1: "process_entry entry t = Inr t1"
    using process_entry_wf by blast
  from Cons.IH [OF rest, of t1] obtain t2 where "process_entries entries t1 = Inr t2"
    by blast
  with t1 show ?case
    by simp
qed

lemma process_page_wf:
  assumes "wf_page data"
  shows "\<exists>t'. process_page data t = Inr t'"
proof -
  from assms obtain kvs where d: "data = JObj kvs"
    by (cases data) auto
  show ?thesis
  proof (cases "map_of kvs ''results''")
    case None
    with d show ?thesis
      by (simp add: process_page_def page_entries_def)
  next
    case (Some rs)
    with assms d obtain entries where rs: "rs = JArr entries" and wf: "list_all wf_entry entries"
      by (cases rs) auto
    from process_entries_wf [OF wf, of t] Some d rs show ?thesis
      by (simp add: process_page_def page_entries_def)
  qed
qed

lemma process_pages_wf:
  "list_all wf_page pages \<Longrightarrow> \<exists>t'. process_pages pages t = Inr t'"
proof (induction pages arbitrary: t)
  case Nil
  then show ?case by simp
next
  case (Cons data pages)
  from Cons.prems have wf: "wf_page data" and rest: "list_all wf_page pages"
    by simp_all
  from wf obtain t1 where t1: "process_page data t = Inr t1"
    using process_page_wf by blast
  from Cons.IH [OF rest, of t1] obtain t2 where "process_pages pages t1 = Inr t2"
    by blast
  with t1 show ?case
    by simp
qed

lemma request_urls_explicit:
  "pages \<noteq> [] \<Longrightarrow>
     request_urls url pages = text_of url # map (\<lambda>data. text_of (next_url data)) (butlast pages)"
  by (induction pages arbitrary: url) auto

text \<open>
  C9.  Let the catalog deliver a finite sequence of pages of the catalog's shape, the first
  at \<open>START_URL\<close>, each following one at the \<open>next\<close> of the page before, which is a
  non-empty string, and let the \<open>next\<close> of the last page be absent, \<open>null\<close> or the empty
  string.  Then the loop of the Mapping Builder returns: it has requested exactly these
  pages, in this order, at \<open>START_URL\<close> and then at each \<open>next\<close> in turn, it has made no
  request after the last page, and its table is the one that processing these pages gives.
\<close>

theorem pagination_follows_next:
  assumes "linked srv 0 START_URL pages" and "list_all wf_page pages"
  shows "\<exists>t. fetch_loop srv (JStr START_URL) [] empty_table =
        Some (Inr (START_URL # map (\<lambda>data. text_of (next_url data)) (butlast pages), t))
      \<and> process_pages pages empty_table = Inr t"
proof -
  from assms(1) have ne: "pages \<noteq> []"
    by auto
  from assms(1) have "serves srv (length ([] :: string list)) (JStr START_URL) pages"
    using linked_serves by simp
  then have loop: "fetch_loop srv (JStr START_URL) [] empty_table =
    Some (case process_pages pages empty_table of
            Inl e \<Rightarrow> Inl e
          | Inr t' \<Rightarrow> Inr ([] @ request_urls (JStr START_URL) pages, t'))"
    by (rule fetch_loop_serves)
  from assms(2) obtain t where t: "process_pages pages empty_table = Inr t"
    using process_pages_wf by blast
  from loop t ne show ?thesis
    by (simp add: request_urls_explicit)
qed

text \<open>
  C7.  If, after any number of pages that were fetched and processed, a request of the
  Mapping Builder fails (\<open>fetch_json\<close> raises), then \<open>build_ps2_title_mapping\<close> ends with
  that exception and returns no mapping, partial or not; \<open>main\<close> ends with the same
  exception, the Renamer is never called, and the directory is as it was: the only thing
  the program has done is to print its first line.  (A run whose first line cannot be
  printed ends there, with the exception of the print, before any request is made.)
\<close>

theorem fetch_failure_aborts_run:
  assumes "fails_after srv 0 (JStr START_URL) empty_table pages"
  shows "build_ps2_title_mapping srv = Some (Inl FetchError)
    \<and> main srv refuse out names w =
        (case out Scanning of
           None \<Rightarrow> Some (Some FetchError, w\<lparr>console := console w @ [Scanning]\<rparr>)
         | Some msg \<Rightarrow> Some (Some PrintError, w))"
proof -
  from assms have "fails_after srv (length ([] :: string list)) (JStr START_URL) empty_table pages"
    by simp
  then have "fetch_loop srv (JStr START_URL) [] empty_table = Some (Inl FetchError)"
    by (rule fetch_loop_fails)
  then have "build_ps2_title_mapping srv = Some (Inl FetchError)"
    by (simp add: build_ps2_title_mapping_def)
  then show ?thesis
    by (simp add: main_def py_print_def split: option.split)
qed

lemma update_set: "set (AList.update k v al) \<subseteq> insert (k, v) (set al)"
  by (induction al) auto

lemma py_strip_trimmed: "py_strip s \<noteq> [] \<Longrightarrow> trimmed (py_strip s)"
  using py_strip_ends [of s] by (simp add: trimmed_def)

lemma entry_serial_parts:
  assumes "entry_serial entry = Inr (Some serial)"
  shows "\<exists>tt tn. get_text entry ''title_id_type'' = Inr tt
      \<and> get_text entry ''title_id_number'' = Inr tn
      \<and> serial = py_strip tt @ ''-'' @ py_strip tn \<and> py_strip tt \<noteq> [] \<and> py_strip tn \<noteq> []"
proof -
  from assms obtain sys where 1: "py_get entry ''systems'' = Inr sys"
    by (cases "py_get entry ''systems''") (simp_all add: entry_serial_def)
  from assms 1 obtain b where 2: "py_in ''PlayStation 2'' (py_or sys (JArr [])) = Inr b"
    by (cases "py_in ''PlayStation 2'' (py_or sys (JArr []))") (simp_all add: entry_serial_def)
  from assms 1 2 have b: b
    by (cases b) (simp_all add: entry_serial_def)
  from assms 1 2 b obtain ct where 3: "get_text entry ''content_type'' = Inr ct"
    by (cases "get_text entry ''content_type''") (simp_all add: entry_serial_def)
  from assms 1 2 b 3 have g: "py_lower ct = ''game''"
    by (cases "py_lower ct = ''game''") (simp_all add: entry_serial_def)
  from assms 1 2 b 3 g obtain tt where 4: "get_text entry ''title_id_type'' = Inr tt"
    by (cases "get_text entry ''title_id_type''") (simp_all add: entry_serial_def)
  from assms 1 2 b 3 g 4 obtain tn where 5: "get_text entry ''title_id_number'' = Inr tn"
    by (cases "get_text entry ''title_id_number''") (simp_all add: entry_serial_def)
  from assms 1 2 b 3 g 4 5
  have "serial = py_strip tt @ ''-'' @ py_strip tn \<and> py_strip tt \<noteq> [] \<and> py_strip tn \<noteq> []"
    by (cases "py_strip tt \<noteq> [] \<and> py_strip tn \<noteq> []") (auto simp: entry_serial_def Let_def)
  with 4 5 show ?thesis
    by blast
qed

lemma entry_serial_key_form:
  assumes "entry_serial entry = Inr (Some serial)"
  shows "key_form serial"
proof -
  from entry_serial_parts [OF assms] obtain tt tn where
    s: "serial = py_strip tt @ ''-'' @ py_strip tn" and ne: "py_strip tt \<noteq> []" "py_strip tn \<noteq> []"
    by blast
  from ne have "trimmed (py_strip tt)" and "trimmed (py_strip tn)"
    by (simp_all add: py_strip_trimmed)
  with s show ?thesis
    unfolding key_form_def by (intro exI [of _ "py_strip tt"] exI [of _ "py_strip tn"]) simp
qed

lemma process_entry_cases:
  assumes "process_entry entry (m, seen) = Inr (m', seen')"
  obtains (same) "m' = m" "seen' = seen"
  | (added) serial title where "accepted entry serial title" "serial \<notin> seen"
      "m' = AList.update serial title m" "seen' = insert serial seen"
proof (cases "entry_serial entry")
  case (Inl e)
  with assms show ?thesis by simp
next
  case (Inr r)
  show ?thesis
  proof (cases r)
    case None
    with Inr assms same show ?thesis by simp
  next
    case (Some serial)
    show ?thesis
    proof (cases "serial \<in> seen")
      case True
      with Inr Some assms same show ?thesis by simp
    next
      case False
      show ?thesis
      proof (cases "pick_title entry")
        case (Inl e)
        with Inr Some False assms show ?thesis by simp
      next
        case title: (Inr title)
        show ?thesis
        proof (cases "title = []")
          case True
          with Inr Some False title assms same show ?thesis by simp
        next
          case ne: False
          with Inr Some title have acc: "accepted entry serial title"
            by (simp add: accepted_def)
          from Inr Some False title ne assms
          have upd: "m' = AList.update serial title m" "seen' = insert serial seen"
            by simp_all
          from acc False upd show ?thesis
            by (rule added)
        qed
      qed
    qed
  qed
qed

lemma process_entry_well_keyed:
  assumes "process_entry entry (m, seen) = Inr (m', seen')" and "well_keyed m"
  shows "well_keyed m'"
  using assms(1)
proof (cases rule: process_entry_cases)
  case same
  with assms(2) show ?thesis by simp
next
  case (added serial title)
  then have "key_form serial" and "title \<noteq> []"
    by (auto simp: accepted_def intro: entry_serial_key_form)
  with assms(2) added(3) update_set [of serial title m] show ?thesis
    unfolding well_keyed_def by blast
qed

lemma process_entries_well_keyed:
  "process_entries entries t = Inr t' \<Longrightarrow> well_keyed (fst t) \<Longrightarrow> well_keyed (fst t')"
proof (induction entries arbitrary: t)
  case Nil
  then show ?case by simp
next
  case (Cons entry entries)
  from Cons.prems(1) obtain t1 where s: "process_entry entry t = Inr t1"
    and r: "process_entries entries t1 = Inr t'"
    by (auto split: sum.splits)
  from s Cons.prems(2) have "well_keyed (fst t1)"
    using process_entry_well_keyed [of entry "fst t" "snd t" "fst t1" "snd t1"] by simp
  with r show ?case
    by (rule Cons.IH)
qed

lemma process_page_well_keyed:
  "process_page data t = Inr t' \<Longrightarrow> well_keyed (fst t) \<Longrightarrow> well_keyed (fst t')"
proof -
  assume p: "process_page data t = Inr t'" and w: "well_keyed (fst t)"
  from p obtain entries where "process_entries entries t = Inr t'"
    by (cases "page_entries data") (simp_all add: process_page_def)
  then show "well_keyed (fst t')"
    using w by (rule process_entries_well_keyed)
qed

lemma fetch_loop_well_keyed:
  assumes "fetch_loop srv url requested t = Some y"
  shows "well_keyed (fst t) \<longrightarrow> (\<forall>requested' t'. y = Inr (requested', t') \<longrightarrow> well_keyed (fst t'))"
proof (rule fetch_loop.raw_induct
    [where P = "\<lambda>srv url requested t y.
       well_keyed (fst t) \<longrightarrow> (\<forall>requested' t'. y = Inr (requested', t') \<longrightarrow> well_keyed (fst t'))",
     OF _ assms], goal_cases)
  case (1 loop srv url requested t y)
  show ?case
  proof (cases "truthy url")
    case False
    with 1(2) show ?thesis by auto
  next
    case True
    show ?thesis
    proof (cases "fetch_json srv (length requested) url")
      case (Inl e)
      with True 1(2) show ?thesis by auto
    next
      case data: (Inr data)
      show ?thesis
      proof (cases "process_page data t")
        case (Inl e)
        with True data 1(2) show ?thesis by auto
      next
        case t1: (Inr t1)
        show ?thesis
        proof (cases "py_get data ''next''")
          case (Inl e)
          with True data t1 1(2) show ?thesis by auto
        next
          case (Inr nxt)
          with True data t1 1(2) have approx: "loop srv nxt (requested @ [text_of url]) t1 = Some y"
            by simp
          from 1(1) [OF approx]
          have ih: "well_keyed (fst t1) \<longrightarrow>
              (\<forall>requested' t'. y = Inr (requested', t') \<longrightarrow> well_keyed (fst t'))" .
          show ?thesis
          proof (rule impI)
            assume "well_keyed (fst t)"
            with t1 have "well_keyed (fst t1)"
              by (rule process_page_well_keyed)
            with ih show "\<forall>requested' t'. y = Inr (requested', t') \<longrightarrow> well_keyed (fst t')"
              by (rule mp)
          qed
        qed
      qed
    qed
  qed
qed

lemma process_entries_append:
  "process_entries (xs @ ys) t =
     (case process_entries xs t of Inl e \<Rightarrow> Inl e | Inr t' \<Rightarrow> process_entries ys t')"
  by (induction xs arbitrary: t) (simp_all split: sum.splits)

lemma process_pages_entries:
  "process_pages pages t = Inr t' \<Longrightarrow> process_entries (all_entries pages) t = Inr t'"
proof (induction pages arbitrary: t)
  case Nil
  then show ?case by (simp add: all_entries_def)
next
  case (Cons data pages)
  from Cons.prems obtain t1 where p: "process_page data t = Inr t1"
    and r: "process_pages pages t1 = Inr t'"
    by (cases "process_page data t") simp_all
  from p obtain entries where pe: "page_entries data = Inr entries"
    and e: "process_entries entries t = Inr t1"
    by (cases "page_entries data") (simp_all add: process_page_def)
  from pe have "all_entries (data # pages) = entries @ all_entries pages"
    by (simp add: all_entries_def)
  with e Cons.IH [OF r] show ?case
    by (simp add: process_entries_append)
qed

lemma process_entry_keeps:
  assumes "process_entry entry (m, seen) = Inr (m', seen')" and "serial \<in> seen"
  shows "serial \<in> seen' \<and> map_of m' serial = map_of m serial"
  using assms(1)
proof (cases rule: process_entry_cases)
  case same
  with assms(2) show ?thesis by simp
next
  case (added s title)
  with assms(2) have "s \<noteq> serial"
    by auto
  with added assms(2) show ?thesis
    by (simp add: update_conv')
qed

lemma process_entries_keep:
  "process_entries entries (m, seen) = Inr (m', seen') \<Longrightarrow> serial \<in> seen \<Longrightarrow>
     serial \<in> seen' \<and> map_of m' serial = map_of m serial"
proof (induction entries arbitrary: m seen)
  case Nil
  then show ?case by simp
next
  case (Cons entry entries)
  from Cons.prems(1) obtain m1 s1 where p: "process_entry entry (m, seen) = Inr (m1, s1)"
    and r: "process_entries entries (m1, s1) = Inr (m', seen')"
    by (cases "process_entry entry (m, seen)") auto
  from process_entry_keeps [OF p Cons.prems(2)]
  have k: "serial \<in> s1" and e: "map_of m1 serial = map_of m serial"
    by simp_all
  from Cons.IH [OF r k] e show ?case
    by simp
qed

lemma process_entries_unseen:
  "process_entries entries (m, seen) = Inr (m', seen') \<Longrightarrow> serial \<notin> seen \<Longrightarrow>
     \<forall>entry\<in>set entries. \<forall>title. \<not> accepted entry serial title \<Longrightarrow> serial \<notin> seen'"
proof (induction entries arbitrary: m seen)
  case Nil
  then show ?case by simp
next
  case (Cons entry entries)
  from Cons.prems(1) obtain m1 s1 where p: "process_entry entry (m, seen) = Inr (m1, s1)"
    and r: "process_entries entries (m1, s1) = Inr (m', seen')"
    by (cases "process_entry entry (m, seen)") auto
  from p have "serial \<notin> s1"
  proof (cases rule: process_entry_cases)
    case same
    with Cons.prems(2) show ?thesis by simp
  next
    case (added s title)
    with Cons.prems(3) have "s \<noteq> serial"
      by auto
    with added Cons.prems(2) show ?thesis
      by simp
  qed
  moreover from Cons.prems(3) have "\<forall>entry\<in>set entries. \<forall>title. \<not> accepted entry serial title"
    by simp
  ultimately show ?case
    using r Cons.IH by blast
qed

lemma process_entry_records:
  assumes "accepted entry serial title" and "serial \<notin> seen"
  shows "process_entry entry (m, seen) = Inr (AList.update serial title m, insert serial seen)"
  using assms by (simp add: accepted_def)

lemma process_entries_distinct:
  "process_entries entries (m, seen) = Inr (m', seen') \<Longrightarrow> distinct (map fst m) \<Longrightarrow>
     distinct (map fst m')"
proof (induction entries arbitrary: m seen)
  case Nil
  then show ?case by simp
next
  case (Cons entry entries)
  from Cons.prems(1) obtain m1 s1 where p: "process_entry entry (m, seen) = Inr (m1, s1)"
    and r: "process_entries entries (m1, s1) = Inr (m', seen')"
    by (cases "process_entry entry (m, seen)") auto
  from p Cons.prems(2) have "distinct (map fst m1)"
    by (cases rule: process_entry_cases) (simp_all add: distinct_update)
  with r show ?case
    by (rule Cons.IH)
qed

lemma build_by_pages:
  assumes "serves srv 0 (JStr START_URL) pages" and "build_ps2_title_mapping srv = Some (Inr m)"
  shows "\<exists>seen. process_entries (all_entries pages) empty_table = Inr (m, seen)"
proof -
  from assms(1) have "serves srv (length ([] :: string list)) (JStr START_URL) pages"
    by simp
  then have loop: "fetch_loop srv (JStr START_URL) [] empty_table =
    Some (case process_pages pages empty_table of
            Inl e \<Rightarrow> Inl e
          | Inr t' \<Rightarrow> Inr ([] @ request_urls (JStr START_URL) pages, t'))"
    by (rule fetch_loop_serves)
  show ?thesis
  proof (cases "process_pages pages empty_table")
    case (Inl e)
    with loop assms(2) show ?thesis
      by (simp add: build_ps2_title_mapping_def)
  next
    case (Inr t')
    obtain m' seen where t': "t' = (m', seen)"
      by (cases t')
    with Inr loop assms(2) have "m' = m"
      by (simp add: build_ps2_title_mapping_def)
    with Inr t' have "process_pages pages empty_table = Inr (m, seen)"
      by simp
    then have "process_entries (all_entries pages) empty_table = Inr (m, seen)"
      by (rule process_pages_entries)
    then show ?thesis
      by blast
  qed
qed

lemma fetch_loop_pages:
  assumes "fetch_loop srv url requested t = Some y"
  shows "\<forall>requested' t'. y = Inr (requested', t') \<longrightarrow>
    (\<exists>pages. serves srv (length requested) url pages \<and> process_pages pages t = Inr t')"
proof (rule fetch_loop.raw_induct
    [where P = "\<lambda>srv url requested t y. \<forall>requested' t'. y = Inr (requested', t') \<longrightarrow>
       (\<exists>pages. serves srv (length requested) url pages \<and> process_pages pages t = Inr t')",
     OF _ assms], goal_cases)
  case (1 loop srv url requested t y)
  show ?case
  proof (cases "truthy url")
    case False
    with 1(2) have y: "y = Inr (requested, t)"
      by simp
    show ?thesis
    proof (intro allI impI)
      fix requested' t'
      assume "y = Inr (requested', t')"
      with y have "t' = t"
        by simp
      with False show "\<exists>pages. serves srv (length requested) url pages
          \<and> process_pages pages t = Inr t'"
        by (intro exI [of _ "[]"]) simp
    qed
  next
    case True
    show ?thesis
    proof (cases "fetch_json srv (length requested) url")
      case (Inl e)
      with True 1(2) show ?thesis by auto
    next
      case data: (Inr data)
      show ?thesis
      proof (cases "process_page data t")
        case (Inl e)
        with True data 1(2) show ?thesis by auto
      next
        case t1: (Inr t1)
        from t1 have nx: "py_get data ''next'' = Inr (next_url data)"
          by (rule page_next)
        with True data t1 1(2)
        have approx: "loop srv (next_url data) (requested @ [text_of url]) t1 = Some y"
          by simp
        show ?thesis
        proof (intro allI impI)
          fix requested' t'
          assume "y = Inr (requested', t')"
          with 1(1) [OF approx] obtain pages where
            sv: "serves srv (length (requested @ [text_of url])) (next_url data) pages"
            and pp: "process_pages pages t1 = Inr t'"
            by blast
          from True data sv have "serves srv (length requested) url (data # pages)"
            by simp
          moreover from t1 pp have "process_pages (data # pages) t = Inr t'"
            by simp
          ultimately show "\<exists>pages. serves srv (length requested) url pages
              \<and> process_pages pages t = Inr t'"
            by blast
        qed
      qed
    qed
  qed
qed

lemma process_entries_origin:
  "process_entries entries (m0, s0) = Inr (m, s) \<Longrightarrow> (serial, title) \<in> set m \<Longrightarrow>
     (serial, title) \<in> set m0 \<or> (\<exists>entry\<in>set entries. accepted entry serial title)"
proof (induction entries arbitrary: m0 s0)
  case Nil
  then show ?case by simp
next
  case (Cons entry entries)
  from Cons.prems(1) obtain m1 s1 where p: "process_entry entry (m0, s0) = Inr (m1, s1)"
    and r: "process_entries entries (m1, s1) = Inr (m, s)"
    by (cases "process_entry entry (m0, s0)") auto
  from Cons.IH [OF r Cons.prems(2)]
  have later: "(serial, title) \<in> set m1 \<or> (\<exists>entry\<in>set entries. accepted entry serial title)" .
  from p have "(serial, title) \<in> set m1 \<longrightarrow>
      (serial, title) \<in> set m0 \<or> accepted entry serial title"
  proof (cases rule: process_entry_cases)
    case same
    then show ?thesis by simp
  next
    case (added serial' title')
    with update_set [of serial' title' m0] show ?thesis
      by auto
  qed
  with later show ?case
    by auto
qed

text \<open>
  C1 (amended).  Every key that the Mapping Builder stores is the trimmed
  \<open>title_id_type\<close>, a hyphen and the trimmed \<open>title_id_number\<close> of an entry of the pages
  that the catalog delivered, both parts non-empty (and so without whitespace at their
  ends), and the title stored with it is the title selected from that entry, which is not
  empty.  (The builder does not check the parts for four letters and five digits.)
\<close>

theorem stored_keys_are_joined_components:
  assumes "build_ps2_title_mapping srv = Some (Inr m)" and "(serial, title) \<in> set m"
  shows "key_form serial \<and> title \<noteq> []
    \<and> (\<exists>pages entry t_type t_num.
          serves srv 0 (JStr START_URL) pages \<and> entry \<in> set (all_entries pages)
          \<and> get_text entry ''title_id_type'' = Inr t_type
          \<and> get_text entry ''title_id_number'' = Inr t_num
          \<and> py_strip t_type \<noteq> [] \<and> py_strip t_num \<noteq> []
          \<and> serial = py_strip t_type @ ''-'' @ py_strip t_num
          \<and> pick_title entry = Inr title)"
proof -
  from assms(1) obtain requested seen where
    loop: "fetch_loop srv (JStr START_URL) [] empty_table = Some (Inr (requested, m, seen))"
    by (auto simp: build_ps2_title_mapping_def split: option.splits sum.splits)
  from fetch_loop_pages [OF loop] obtain pages where
    sv: "serves srv 0 (JStr START_URL) pages"
    and pp: "process_pages pages empty_table = Inr (m, seen)"
    by auto
  from pp have "process_entries (all_entries pages) ([], {}) = Inr (m, seen)"
    unfolding empty_table_def by (rule process_pages_entries)
  from process_entries_origin [OF this assms(2)] obtain entry where
    e: "entry \<in> set (all_entries pages)" and acc: "accepted entry serial title"
    by auto
  from acc have es: "entry_serial entry = Inr (Some serial)" and pt: "pick_title entry = Inr title"
    and ne: "title \<noteq> []"
    by (simp_all add: accepted_def)
  from entry_serial_parts [OF es] obtain t_type t_num where
    parts: "get_text entry ''title_id_type'' = Inr t_type"
      "get_text entry ''title_id_number'' = Inr t_num"
      "serial = py_strip t_type @ ''-'' @ py_strip t_num"
      "py_strip t_type \<noteq> []" "py_strip t_num \<noteq> []"
    by blast
  from es have "key_form serial"
    by (rule entry_serial_key_form)
  with ne sv e parts pt show ?thesis
    by blast
qed

text \<open>
  C3.  Let two entries of the pages that the catalog delivered, one before the other in
  page-then-entry order, both pass the filters of the Mapping Builder under the same serial
  code, and let no entry before the first of them pass under that code.  Then the mapping
  that is built has one record for the code (its keys are distinct), and the title of that
  record is the one selected from the first entry; the title of the second is not stored.
\<close>

theorem first_occurrence_wins:
  assumes "serves srv 0 (JStr START_URL) pages"
    and "build_ps2_title_mapping srv = Some (Inr m)"
    and "all_entries pages = before @ first # between @ second # after"
    and "accepted first serial title" and "accepted second serial title'"
    and "\<forall>entry\<in>set before. \<forall>t. \<not> accepted entry serial t"
  shows "map_of m serial = Some title \<and> distinct (map fst m)
    \<and> (\<forall>t. (serial, t) \<in> set m \<longrightarrow> t = title)"
proof -
  from build_by_pages [OF assms(1,2)] obtain seen where
    run: "process_entries (before @ first # between @ second # after) empty_table = Inr (m, seen)"
    unfolding assms(3) by blast
  then obtain m1 s1 where b: "process_entries before ([], {}) = Inr (m1, s1)"
    and r1: "process_entries (first # between @ second # after) (m1, s1) = Inr (m, seen)"
    by (cases "process_entries before ([], {})")
      (auto simp: process_entries_append empty_table_def)
  from b assms(6) have unseen: "serial \<notin> s1"
    by (intro process_entries_unseen [of before "[]" "{}" m1 s1 serial]) simp_all
  from assms(4) unseen
  have "process_entry first (m1, s1) = Inr (AList.update serial title m1, insert serial s1)"
    by (rule process_entry_records)
  with r1 have r2: "process_entries (between @ second # after)
      (AList.update serial title m1, insert serial s1) = Inr (m, seen)"
    by simp
  from process_entries_keep [OF r2, of serial]
  have stored: "map_of m serial = Some title"
    by (simp add: update_conv')
  from run have d: "distinct (map fst m)"
    by (intro process_entries_distinct [of _ "[]" "{}" m seen]) (simp_all add: empty_table_def)
  have "t = title" if "(serial, t) \<in> set m" for t
  proof -
    from d that have "map_of m serial = Some t"
      by (rule map_of_is_SomeI)
    with stored show ?thesis
      by simp
  qed
  with stored d show ?thesis
    by blast
qed

lemmas server_eval_defs =
  short_serial_server_def two_page_server_def failing_server_def first_page_def second_page_def
  next_url_def START_URL_def json_eval_defs

lemma short_serves:
  "serves short_serial_server 0 (JStr START_URL)
     [page_json [game_json ''SLUS'' ''200'' (name_json ''Demo'' [])] JNull]"
  by (simp add: server_eval_defs)

lemma short_table:
  "process_pages [page_json [game_json ''SLUS'' ''200'' (name_json ''Demo'' [])] JNull] empty_table =
     Inr ([(''SLUS-200'', ''Demo'')], {''SLUS-200''})"
  by (simp add: server_eval_defs)

text \<open>
  C1 as stated fails: for a catalog of one page with a PlayStation 2 game whose
  \<open>title_id_type\<close> is \<open>SLUS\<close> and whose \<open>title_id_number\<close> is \<open>200\<close>, the mapping has
  the key \<open>SLUS-200\<close>, which is not of the form of four letters, a hyphen and five digits.
\<close>

theorem short_serial_number_counterexample:
  "build_ps2_title_mapping short_serial_server = Some (Inr [(''SLUS-200'', ''Demo'')])
   \<and> \<not> serial_match ''SLUS-200''"
proof -
  have "serves short_serial_server (length ([] :: string list)) (JStr START_URL)
     [page_json [game_json ''SLUS'' ''200'' (name_json ''Demo'' [])] JNull]"
    using short_serves by simp
  from fetch_loop_serves [OF this, of empty_table, unfolded short_table]
  have "build_ps2_title_mapping short_serial_server = Some (Inr [(''SLUS-200'', ''Demo'')])"
    by (simp add: build_ps2_title_mapping_def)
  moreover have "\<not> serial_match ''SLUS-200''"
    by (simp add: serial_match_def serial_shape_def newline_def)
  ultimately show ?thesis
    by simp
qed

lemma two_page_linked: "linked two_page_server 0 START_URL [first_page, second_page]"
  by (simp add: server_eval_defs)

lemma two_page_wf: "list_all wf_page [first_page, second_page]"
  by (simp add: server_eval_defs)

lemma two_page_table:
  "process_pages [first_page, second_page] empty_table =
     Inr ([(''SCUS-12345'', ''First Title''), (''SLUS-20001'', ''Other'')], {''SLUS-20001'', ''SCUS-12345''})"
  by (simp add: server_eval_defs)

lemma two_page_build:
  "build_ps2_title_mapping two_page_server =
     Some (Inr [(''SCUS-12345'', ''First Title''), (''SLUS-20001'', ''Other'')])"
proof -
  have "serves two_page_server (length ([] :: string list)) (JStr START_URL) [first_page, second_page]"
    using linked_serves [OF two_page_linked] by simp
  from fetch_loop_serves [OF this, of empty_table, unfolded two_page_table] show ?thesis
    by (simp add: build_ps2_title_mapping_def)
qed

lemma two_page_entries:
  "all_entries [first_page, second_page] =
     [game_json ''SCUS'' ''12345'' (name_json [] [])] @
     game_json ''SCUS'' ''12345'' (name_json ''First Title'' []) #
     [game_json ''SLUS'' ''20001'' (name_json ''Other'' [])] @
     game_json ''SCUS'' ''12345'' (name_json ''Second Title'' []) # []"
  by (simp add: all_entries_def first_page_def second_page_def page_entries_def page_json_def)

lemma two_page_accepted:
  "accepted (game_json ''SCUS'' ''12345'' (name_json ''First Title'' [])) ''SCUS-12345'' ''First Title''"
  "accepted (game_json ''SCUS'' ''12345'' (name_json ''Second Title'' [])) ''SCUS-12345'' ''Second Title''"
  "\<forall>entry\<in>set [game_json ''SCUS'' ''12345'' (name_json [] [])]. \<forall>t.
      \<not> accepted entry ''SCUS-12345'' t"
  by (simp_all add: accepted_def json_eval_defs)

lemma failing_fails: "fails_after failing_server 0 (JStr START_URL) empty_table [first_page]"
  by (simp add: server_eval_defs)

theorem pagination_follows_next_witness:
  "linked two_page_server 0 START_URL [first_page, second_page]
   \<and> list_all wf_page [first_page, second_page]
   \<and> (\<exists>t. fetch_loop two_page_server (JStr START_URL) [] empty_table =
              Some (Inr ([START_URL, ''page2''], t))
            \<and> process_pages [first_page, second_page] empty_table = Inr t)"
proof -
  have n: "text_of (next_url first_page) = ''page2''"
    by (simp add: first_page_def page_json_def next_url_def)
  show ?thesis
    using pagination_follows_next [OF two_page_linked two_page_wf] two_page_linked two_page_wf n
    by simp
qed

theorem fetch_failure_aborts_run_witness:
  "fails_after failing_server 0 (JStr START_URL) empty_table [first_page]
   \<and> build_ps2_title_mapping failing_server = Some (Inl FetchError)
   \<and> main failing_server accept_all prints_all example_listing example_dir =
       Some (Some FetchError, example_dir\<lparr>console := [Scanning]\<rparr>)"
proof -
  have c: "console example_dir = []"
    by (simp add: example_dir_def)
  show ?thesis
    using fetch_failure_aborts_run [OF failing_fails, of accept_all prints_all example_listing example_dir]
      failing_fails c
    by (simp add: prints_all_def)
qed

theorem stored_keys_are_joined_components_witness:
  "build_ps2_title_mapping two_page_server =
     Some (Inr [(''SCUS-12345'', ''First Title''), (''SLUS-20001'', ''Other'')])
   \<and> key_form ''SCUS-12345'' \<and> ''First Title'' \<noteq> []
   \<and> (\<exists>pages entry t_type t_num.
          serves two_page_server 0 (JStr START_URL) pages \<and> entry \<in> set (all_entries pages)
          \<and> get_text entry ''title_id_type'' = Inr t_type
          \<and> get_text entry ''title_id_number'' = Inr t_num
          \<and> py_strip t_type \<noteq> [] \<and> py_strip t_num \<noteq> []
          \<and> ''SCUS-12345'' = py_strip t_type @ ''-'' @ py_strip t_num
          \<and> pick_title entry = Inr ''First Title'')
   \<and> serial_match ''SCUS-12345''"
proof -
  have i: "(''SCUS-12345'', ''First Title'')
      \<in> set [(''SCUS-12345'', ''First Title''), (''SLUS-20001'', ''Other'')]"
    by simp
  have s: "serial_match ''SCUS-12345''"
    by (simp add: serial_match_def serial_shape_def is_upper_AZ_def is_decimal_def)
  show ?thesis
    using stored_keys_are_joined_components [OF two_page_build i] two_page_build s
    by simp
qed

theorem first_occurrence_wins_witness:
  "serves two_page_server 0 (JStr START_URL) [first_page, second_page]
   \<and> build_ps2_title_mapping two_page_server =
       Some (Inr [(''SCUS-12345'', ''First Title''), (''SLUS-20001'', ''Other'')])
   \<and> accepted (game_json ''SCUS'' ''12345'' (name_json ''First Title'' []))
        ''SCUS-12345'' ''First Title''
   \<and> accepted (game_json ''SCUS'' ''12345'' (name_json ''Second Title'' []))
        ''SCUS-12345'' ''Second Title''
   \<and> map_of [(''SCUS-12345'', ''First Title''), (''SLUS-20001'', ''Other'')] ''SCUS-12345''
       = Some ''First Title''"
proof -
  have sv: "serves two_page_server 0 (JStr START_URL) [first_page, second_page]"
    using two_page_linked by (rule linked_serves)
  show ?thesis
    using first_occurrence_wins
        [OF sv two_page_build two_page_entries two_page_accepted(1) two_page_accepted(2)
            two_page_accepted(3)]
      sv two_page_build two_page_accepted(1) two_page_accepted(2)
    by simp
qed

end
